theory Spec2Isabelle
  imports Complex_Main "HOL-Library.Char_ord" "HOL-Library.List_Lexorder"
begin


section \<open>The calendar-unit ladder\<close>

text \<open>
  \<^verbatim>\<open>DateUnit\<close> and \<^verbatim>\<open>ALL_DATE_UNITS\<close> of \<^verbatim>\<open>DateTree.ts\<close>. The resolution of a tree is a
  ladder unit; \<^verbatim>\<open>_allUnits()\<close> is the ladder prefix that ends at the resolution.
\<close>

datatype DateUnit = Year | Month | Day | Hour | Minute | Second | Millisecond

text \<open>
  The units are finitely many, so that two objects of components can be compared key by
  key, as \<^verbatim>\<open>_.isEqual\<close> does.
\<close>

instantiation DateUnit :: enum
begin

definition enum_DateUnit :: "DateUnit list" where
  "enum_DateUnit = [Year, Month, Day, Hour, Minute, Second, Millisecond]"

definition enum_all_DateUnit :: "(DateUnit \<Rightarrow> bool) \<Rightarrow> bool" where
  "enum_all_DateUnit P \<longleftrightarrow>
     P Year \<and> P Month \<and> P Day \<and> P Hour \<and> P Minute \<and> P Second \<and> P Millisecond"

definition enum_ex_DateUnit :: "(DateUnit \<Rightarrow> bool) \<Rightarrow> bool" where
  "enum_ex_DateUnit P \<longleftrightarrow>
     P Year \<or> P Month \<or> P Day \<or> P Hour \<or> P Minute \<or> P Second \<or> P Millisecond"

instance
proof
  show "(UNIV :: DateUnit set) = set enum_class.enum"
  proof
    show "(UNIV :: DateUnit set) \<subseteq> set enum_class.enum"
    proof
      fix u :: DateUnit
      show "u \<in> set enum_class.enum"
        by (cases u) (simp_all add: enum_DateUnit_def)
    qed
  next
    show "set enum_class.enum \<subseteq> (UNIV :: DateUnit set)"
      by simp
  qed
next
  show "distinct (enum_class.enum :: DateUnit list)"
    by (simp add: enum_DateUnit_def)
next
  fix P :: "DateUnit \<Rightarrow> bool"
  show "enum_class.enum_all P = Ball UNIV P"
  proof
    assume a: "enum_class.enum_all P"
    show "Ball UNIV P"
    proof
      fix u :: DateUnit
      from a show "P u"
        by (cases u) (simp_all add: enum_all_DateUnit_def)
    qed
  next
    assume "Ball UNIV P"
    then show "enum_class.enum_all P"
      by (simp add: enum_all_DateUnit_def)
  qed
next
  fix P :: "DateUnit \<Rightarrow> bool"
  show "enum_class.enum_ex P = Bex UNIV P"
  proof
    assume "enum_class.enum_ex P"
    then show "Bex UNIV P"
      unfolding enum_ex_DateUnit_def by blast
  next
    assume "Bex UNIV P"
    then obtain u where u: "P u" ..
    then show "enum_class.enum_ex P"
      by (cases u) (simp_all add: enum_ex_DateUnit_def)
  qed
qed

end

definition ALL_DATE_UNITS :: "DateUnit list" where
  "ALL_DATE_UNITS = [Year, Month, Day, Hour, Minute, Second, Millisecond]"

text \<open>
  The loop \<^verbatim>\<open>for (res of ALL_DATE_UNITS) { push(res); if (res === resolution) break; }\<close>,
  which \<^verbatim>\<open>_allUnits\<close>, \<^verbatim>\<open>getDateComponents\<close> and \<^verbatim>\<open>downsampleDateComponents\<close> share.
\<close>

fun units_upto :: "DateUnit list \<Rightarrow> DateUnit \<Rightarrow> DateUnit list" where
  "units_upto [] resolution = []"
| "units_upto (res # rest) resolution =
     (if res = resolution then [res] else res # units_upto rest resolution)"

definition allUnits :: "DateUnit \<Rightarrow> DateUnit list" where
  "allUnits resolution = units_upto ALL_DATE_UNITS resolution"

text \<open>\<^verbatim>\<open>ALL_DATE_UNITS.indexOf(unit)\<close>; every unit of the type is in the ladder.\<close>

fun indexOf :: "DateUnit list \<Rightarrow> DateUnit \<Rightarrow> nat" where
  "indexOf [] u = 0"
| "indexOf (x # xs) u = (if x = u then 0 else Suc (indexOf xs u))"

text \<open>
  \<^verbatim>\<open>getBiggerUnit\<close>: \<^verbatim>\<open>ALL_DATE_UNITS[i - 1]\<close>, which is \<^verbatim>\<open>undefined\<close> for the year
  (index \<open>-1\<close> of a JavaScript array).
\<close>

definition getBiggerUnit :: "DateUnit \<Rightarrow> DateUnit option" where
  "getBiggerUnit unit =
     (let i = indexOf ALL_DATE_UNITS unit
      in if i = 0 then None else Some (ALL_DATE_UNITS ! (i - 1)))"

text \<open>The units strictly coarser than a unit: the ladder before it.\<close>

definition coarser_units :: "DateUnit \<Rightarrow> DateUnit list" where
  "coarser_units unit = take (indexOf ALL_DATE_UNITS unit) ALL_DATE_UNITS"

section \<open>JavaScript numbers and strings\<close>

text \<open>
  The numbers that occur as date components are integers, \<^verbatim>\<open>NaN\<close> and the two
  infinities; \<^verbatim>\<open>parseFloat\<close> may also return a fraction, which \<^verbatim>\<open>Math.round\<close>
  removes at once. A finite number is modelled by its exact value, which is the value of
  the IEEE double wherever that double is exact (every integer of magnitude up to \<open>2^53\<close>);
  the sign of zero is not modelled.
\<close>

datatype 'a jsnum = Fin 'a | NaN | PosInf | NegInf

type_synonym number = "int jsnum"

definition digit_char :: "nat \<Rightarrow> char" where
  "digit_char d = char_of (48 + d)"

text \<open>The decimal digits of a natural number, without leading zeros.\<close>

fun digits :: "nat \<Rightarrow> string" where
  "digits n = (if n < 10 then [digit_char n] else digits (n div 10) @ [digit_char (n mod 10)])"

declare digits.simps [simp del]

text \<open>
  \<^verbatim>\<open>Number.prototype.toString()\<close> on the numbers above (JavaScript prints an integer of
  magnitude below \<open>10^21\<close> as its decimal digits).
\<close>

fun toString :: "number \<Rightarrow> string" where
  "toString (Fin i) = (if i < 0 then CHR ''-'' # digits (nat (- i)) else digits (nat i))"
| "toString NaN = ''NaN''"
| "toString PosInf = ''Infinity''"
| "toString NegInf = ''-Infinity''"

text \<open>\<^verbatim>\<open>String.prototype.padStart(targetLength, padString)\<close> with a one-character pad.\<close>

definition padStart :: "nat \<Rightarrow> char \<Rightarrow> string \<Rightarrow> string" where
  "padStart targetLength c s = replicate (targetLength - length s) c @ s"

subsection \<open>\<^verbatim>\<open>parseFloat\<close> and \<^verbatim>\<open>Math.round\<close>\<close>

definition is_digit :: "char \<Rightarrow> bool" where
  "is_digit c \<longleftrightarrow> 48 \<le> (of_char c :: nat) \<and> (of_char c :: nat) \<le> 57"

definition is_whitespace :: "char \<Rightarrow> bool" where
  "is_whitespace c \<longleftrightarrow> (of_char c :: nat) \<in> {9, 10, 11, 12, 13, 32}"

definition digit_value :: "char \<Rightarrow> nat" where
  "digit_value c = of_char c - 48"

text \<open>The mathematical value of a string of decimal digits.\<close>

definition digits_value :: "string \<Rightarrow> nat" where
  "digits_value ds = foldl (\<lambda>acc c. 10 * acc + digit_value c) 0 ds"

definition pow10 :: "int \<Rightarrow> rat" where
  "pow10 e = (if 0 \<le> e then 10 ^ nat e else 1 / 10 ^ nat (- e))"

text \<open>An optional sign in front of the rest of the string.\<close>

fun split_sign :: "string \<Rightarrow> int \<times> string" where
  "split_sign [] = (1, [])"
| "split_sign (c # r) =
     (if c = CHR ''+'' then (1, r) else if c = CHR ''-'' then (- 1, r) else (1, c # r))"

text \<open>
  The \<^verbatim>\<open>ExponentPart\<close> at the head of a string, if there is a complete one: \<^verbatim>\<open>e\<close> or
  \<^verbatim>\<open>E\<close>, an optional sign and at least one digit. Otherwise the exponent is 0 (the
  longest literal ends before the \<^verbatim>\<open>e\<close>).
\<close>

definition parse_exponent :: "string \<Rightarrow> int" where
  "parse_exponent s =
     (case s of
        [] \<Rightarrow> 0
      | c # r \<Rightarrow>
          if c = CHR ''e'' \<or> c = CHR ''E'' then
            (let (sg, r') = split_sign r; ds = takeWhile is_digit r'
             in if ds = [] then 0 else sg * int (digits_value ds))
          else 0)"

text \<open>
  The longest prefix that is a \<^verbatim>\<open>StrUnsignedDecimalLiteral\<close>, and its value:
  \<^verbatim>\<open>Infinity\<close>, digits with an optional fraction and exponent, or a fraction that
  starts with the point. No such prefix gives \<^verbatim>\<open>NaN\<close>.
\<close>

definition parse_unsigned :: "string \<Rightarrow> rat jsnum" where
  "parse_unsigned s =
     (if take 8 s = ''Infinity'' then PosInf
      else
        let ip = takeWhile is_digit s; r1 = dropWhile is_digit s
        in case r1 of
             [] \<Rightarrow> if ip = [] then NaN else Fin (of_nat (digits_value ip))
           | c # r \<Rightarrow>
               if c = CHR ''.'' then
                 (let fp = takeWhile is_digit r; r2 = dropWhile is_digit r
                  in if ip = [] \<and> fp = [] then NaN
                     else Fin ((of_nat (digits_value ip)
                                 + of_nat (digits_value fp) / 10 ^ length fp)
                               * pow10 (parse_exponent r2)))
               else if ip = [] then NaN
               else Fin (of_nat (digits_value ip) * pow10 (parse_exponent r1)))"

fun negate :: "rat jsnum \<Rightarrow> rat jsnum" where
  "negate (Fin q) = Fin (- q)"
| "negate NaN = NaN"
| "negate PosInf = NegInf"
| "negate NegInf = PosInf"

text \<open>
  \<^verbatim>\<open>parseFloat(string)\<close> on an ASCII string: leading white space is dropped, then the
  longest prefix that is a \<^verbatim>\<open>StrDecimalLiteral\<close> is read; whatever follows it is
  ignored.
\<close>

definition parseFloat :: "string \<Rightarrow> rat jsnum" where
  "parseFloat s =
     (let (sg, r) = split_sign (dropWhile is_whitespace s)
      in if sg < 0 then negate (parse_unsigned r) else parse_unsigned r)"

text \<open>\<^verbatim>\<open>Math.round(x)\<close>: \<open>floor (x + 1/2)\<close>; \<^verbatim>\<open>NaN\<close> and the infinities are returned.\<close>

fun Math_round :: "rat jsnum \<Rightarrow> number" where
  "Math_round (Fin q) = Fin \<lfloor>q + 1 / 2\<rfloor>"
| "Math_round NaN = NaN"
| "Math_round PosInf = PosInf"
| "Math_round NegInf = NegInf"

section \<open>The date-component codec\<close>

text \<open>
  \<^verbatim>\<open>graphDateValue\<close> and \<^verbatim>\<open>nativeDateValue\<close>: the library counts months from 0, the
  tree from 1. On \<^verbatim>\<open>NaN\<close> and the infinities the JavaScript addition changes nothing.
\<close>

fun shift :: "int \<Rightarrow> number \<Rightarrow> number" where
  "shift k (Fin i) = Fin (i + k)"
| "shift k x = x"

definition graphDateValue :: "number \<Rightarrow> DateUnit \<Rightarrow> number" where
  "graphDateValue val res = (if res = Month then shift 1 val else val)"

text \<open>
  \<^verbatim>\<open>nativeDateValue\<close> also meets \<^verbatim>\<open>undefined\<close> (\<open>None\<close>), the value of a key that an
  object holds without a number: \<^verbatim>\<open>undefined - 1\<close> is \<^verbatim>\<open>NaN\<close>.
\<close>

definition nativeDateValue :: "number option \<Rightarrow> DateUnit \<Rightarrow> number option" where
  "nativeDateValue val res =
     (if res = Month then Some (case val of None \<Rightarrow> NaN | Some v \<Rightarrow> shift (- 1) v) else val)"

text \<open>
  \<^verbatim>\<open>MAX_DATE_COMPS\<close> is read off \<^verbatim>\<open>moment.utc().endOf('year')\<close>, the last millisecond of
  the current year, whose fields below the year are the same in every year:
  month 11, date 31, 23:59:59.999.
\<close>

fun endOfYear_field :: "DateUnit \<Rightarrow> int" where
  "endOfYear_field Year = 0"
| "endOfYear_field Month = 11"
| "endOfYear_field Day = 31"
| "endOfYear_field Hour = 23"
| "endOfYear_field Minute = 59"
| "endOfYear_field Second = 59"
| "endOfYear_field Millisecond = 999"

definition MAX_DATE_COMPS :: "DateUnit \<rightharpoonup> number" where
  "MAX_DATE_COMPS =
     map_of (map (\<lambda>r. (r, shift 1 (graphDateValue (Fin (endOfYear_field r)) r)))
               (removeAll Year ALL_DATE_UNITS))"

definition DATE_COMP_PADS :: "DateUnit \<Rightarrow> nat" where
  "DATE_COMP_PADS unit =
     (case MAX_DATE_COMPS unit of
        None \<Rightarrow> 4
      | Some mx \<Rightarrow> length (toString (shift (- 1) mx)))"

text \<open>
  \<^verbatim>\<open>encodeDateComponent\<close>: \<^verbatim>\<open>undefined\<close> (here \<open>None\<close>) stays \<^verbatim>\<open>undefined\<close>, a number is
  printed and padded with zeros on the left.
\<close>

definition encodeDateComponent :: "number option \<Rightarrow> DateUnit \<Rightarrow> string option" where
  "encodeDateComponent val unit =
     (case val of
        None \<Rightarrow> None
      | Some v \<Rightarrow> Some (padStart (DATE_COMP_PADS unit) (CHR ''0'') (toString v)))"

definition decodeDateComponent :: "string \<Rightarrow> number" where
  "decodeDateComponent key = Math_round (parseFloat key)"

text \<open>The values of a unit that the specification calls valid.\<close>

fun valid_value :: "DateUnit \<Rightarrow> int \<Rightarrow> bool" where
  "valid_value Year v \<longleftrightarrow> 1 \<le> v \<and> v \<le> 9999"
| "valid_value Month v \<longleftrightarrow> 1 \<le> v \<and> v \<le> 12"
| "valid_value Day v \<longleftrightarrow> 1 \<le> v \<and> v \<le> 31"
| "valid_value Hour v \<longleftrightarrow> 0 \<le> v \<and> v \<le> 23"
| "valid_value Minute v \<longleftrightarrow> 0 \<le> v \<and> v \<le> 59"
| "valid_value Second v \<longleftrightarrow> 0 \<le> v \<and> v \<le> 59"
| "valid_value Millisecond v \<longleftrightarrow> 0 \<le> v \<and> v \<le> 999"

text \<open>
  A natural number printed in a field of \<open>w\<close> characters, as \<^verbatim>\<open>encodeDateComponent\<close>
  prints it.
\<close>

definition fixed :: "nat \<Rightarrow> nat \<Rightarrow> string" where
  "fixed w n = padStart w (CHR ''0'') (digits n)"

subsection \<open>The shape of a numeric key\<close>









section \<open>The date library\<close>

text \<open>
  \<^verbatim>\<open>moment.utc(...)\<close> values. The library is not part of the repository; the model
  keeps what the code relies on. A valid UTC moment is its calendar fields (the month
  counted from 0, as the library does); setting a field carries an overflow into the
  coarser fields, as the \<^verbatim>\<open>setUTC...\<close> methods of a JavaScript \<^verbatim>\<open>Date\<close> do
  (\<^verbatim>\<open>MakeDay\<close>, \<^verbatim>\<open>MakeTime\<close>); the finite range of \<^verbatim>\<open>Date\<close> is not modelled. Date
  arguments of the tree (\<^verbatim>\<open>DateParsable\<close>) are taken after \<^verbatim>\<open>parseDate\<close>.
\<close>

record datetime =
  m_year :: int
  m_month :: int
  m_date :: int
  m_hour :: int
  m_minute :: int
  m_second :: int
  m_millisecond :: int

datatype moment = Valid datetime | Invalid

definition isLeapYear :: "int \<Rightarrow> bool" where
  "isLeapYear y \<longleftrightarrow> (y mod 4 = 0 \<and> y mod 100 \<noteq> 0) \<or> y mod 400 = 0"

text \<open>The days of a month, the month given from 0; a month out of range carries into the year.\<close>

definition daysInMonth :: "int \<Rightarrow> int \<Rightarrow> int" where
  "daysInMonth y mo =
     (let y' = y + mo div 12; mo' = mo mod 12
      in if mo' = 1 then (if isLeapYear y' then 29 else 28)
         else if mo' \<in> {3, 5, 8, 10} then 30 else 31)"

definition valid_datetime :: "datetime \<Rightarrow> bool" where
  "valid_datetime d \<longleftrightarrow>
     0 \<le> m_month d \<and> m_month d \<le> 11
     \<and> 1 \<le> m_date d \<and> m_date d \<le> daysInMonth (m_year d) (m_month d)
     \<and> 0 \<le> m_hour d \<and> m_hour d \<le> 23
     \<and> 0 \<le> m_minute d \<and> m_minute d \<le> 59
     \<and> 0 \<le> m_second d \<and> m_second d \<le> 59
     \<and> 0 \<le> m_millisecond d \<and> m_millisecond d \<le> 999"

text \<open>
  A day number outside its month moves into the neighbouring months, one month at a
  time: the month is in \<open>0..11\<close> here.
\<close>

function norm_day :: "int \<Rightarrow> int \<Rightarrow> int \<Rightarrow> int \<times> int \<times> int" where
  "norm_day y mo d =
     (if d < 1 then
        (let y' = (if mo = 0 then y - 1 else y); mo' = (if mo = 0 then 11 else mo - 1)
         in norm_day y' mo' (d + daysInMonth y' mo'))
      else if daysInMonth y mo < d then
        (let y' = (if mo = 11 then y + 1 else y); mo' = (if mo = 11 then 0 else mo + 1)
         in norm_day y' mo' (d - daysInMonth y mo))
      else (y, mo, d))"
  by pat_completeness auto
termination
proof (relation "measure (\<lambda>(y, mo, d). if d < 1 then nat (32 * (2 - d)) else nat d)")
  show "wf (measure (\<lambda>(y, mo, d). if d < 1 then nat (32 * (2 - d)) else nat d))"
    by simp
next
  fix y mo d :: int and y' mo'
  assume "d < 1" and "y' = (if mo = 0 then y - 1 else y)"
    and "mo' = (if mo = 0 then 11 else mo - 1)"
  moreover have "28 \<le> daysInMonth y' mo' \<and> daysInMonth y' mo' \<le> 31"
    by (simp add: daysInMonth_def Let_def)
  ultimately show "((y', mo', d + daysInMonth y' mo'), (y, mo, d))
      \<in> measure (\<lambda>(y, mo, d). if d < 1 then nat (32 * (2 - d)) else nat d)"
    by auto
next
  fix y mo d :: int and y' mo'
  assume "\<not> d < 1" and "daysInMonth y mo < d"
  moreover have "28 \<le> daysInMonth y mo \<and> daysInMonth y mo \<le> 31"
    by (simp add: daysInMonth_def Let_def)
  ultimately show "((y', mo', d - daysInMonth y mo), (y, mo, d))
      \<in> measure (\<lambda>(y, mo, d). if d < 1 then nat (32 * (2 - d)) else nat d)"
    by auto
qed

declare norm_day.simps [simp del]

text \<open>
  The date-time of seven field values of any size: the time of day carries into the day
  number, the month into the year, the day number into the months.
\<close>

definition make_datetime :: "int \<Rightarrow> int \<Rightarrow> int \<Rightarrow> int \<Rightarrow> int \<Rightarrow> int \<Rightarrow> int \<Rightarrow> datetime" where
  "make_datetime y mo d h mi s ms =
     (let t = ((h * 60 + mi) * 60 + s) * 1000 + ms;
          tod = t mod 86400000;
          (y', mo', d') = norm_day (y + mo div 12) (mo mod 12) (d + t div 86400000)
      in \<lparr> m_year = y', m_month = mo', m_date = d',
           m_hour = tod div 3600000, m_minute = tod div 60000 mod 60,
           m_second = tod div 1000 mod 60, m_millisecond = tod mod 1000 \<rparr>)"

definition normalise :: "datetime \<Rightarrow> datetime" where
  "normalise d =
     make_datetime (m_year d) (m_month d) (m_date d)
       (m_hour d) (m_minute d) (m_second d) (m_millisecond d)"

text \<open>\<^verbatim>\<open>m.get(nativeDateUnit(unit))\<close>; the day of the month is the library's \<^verbatim>\<open>date\<close>.\<close>

fun datetime_field :: "DateUnit \<Rightarrow> datetime \<Rightarrow> int" where
  "datetime_field Year d = m_year d"
| "datetime_field Month d = m_month d"
| "datetime_field Day d = m_date d"
| "datetime_field Hour d = m_hour d"
| "datetime_field Minute d = m_minute d"
| "datetime_field Second d = m_second d"
| "datetime_field Millisecond d = m_millisecond d"

fun moment_get :: "DateUnit \<Rightarrow> moment \<Rightarrow> number" where
  "moment_get unit (Valid d) = Fin (datetime_field unit d)"
| "moment_get unit Invalid = NaN"

fun datetime_update :: "DateUnit \<Rightarrow> int \<Rightarrow> datetime \<Rightarrow> datetime" where
  "datetime_update Year v d = d\<lparr>m_year := v\<rparr>"
| "datetime_update Month v d = d\<lparr>m_month := v\<rparr>"
| "datetime_update Day v d = d\<lparr>m_date := v\<rparr>"
| "datetime_update Hour v d = d\<lparr>m_hour := v\<rparr>"
| "datetime_update Minute v d = d\<lparr>m_minute := v\<rparr>"
| "datetime_update Second v d = d\<lparr>m_second := v\<rparr>"
| "datetime_update Millisecond v d = d\<lparr>m_millisecond := v\<rparr>"

text \<open>
  The library's \<^verbatim>\<open>setMonth\<close>: the day of the month is cut to the length of the new
  month before the month is set.
\<close>

definition setMonth :: "int \<Rightarrow> datetime \<Rightarrow> datetime" where
  "setMonth v d =
     normalise (d\<lparr>m_month := v, m_date := min (m_date d) (daysInMonth (m_year d) v)\<rparr>)"

text \<open>
  \<^verbatim>\<open>m.set(unit, value)\<close>. With \<^verbatim>\<open>undefined\<close> the call only reads; a \<^verbatim>\<open>NaN\<close> is ignored
  except for the month, where it makes the date invalid, as an infinite value does
  everywhere; setting the year of a 29 February keeps the date in February.
\<close>

fun moment_set :: "DateUnit \<Rightarrow> number option \<Rightarrow> moment \<Rightarrow> moment" where
  "moment_set unit val Invalid = Invalid"
| "moment_set unit None (Valid d) = Valid d"
| "moment_set unit (Some (Fin v)) (Valid d) =
     (if unit = Month then Valid (setMonth v d)
      else if unit = Year \<and> m_month d = 1 \<and> m_date d = 29
        then Valid (normalise (d\<lparr>m_year := v, m_date := daysInMonth v 1\<rparr>))
      else Valid (normalise (datetime_update unit v d)))"
| "moment_set unit (Some NaN) (Valid d) = (if unit = Month then Invalid else Valid d)"
| "moment_set unit (Some PosInf) (Valid d) = Invalid"
| "moment_set unit (Some NegInf) (Valid d) = Invalid"

text \<open>\<^verbatim>\<open>m.startOf(unit)\<close>: the fields finer than the unit go to their first value.\<close>

fun startOf_datetime :: "DateUnit \<Rightarrow> datetime \<Rightarrow> datetime" where
  "startOf_datetime Year d =
     d\<lparr>m_month := 0, m_date := 1, m_hour := 0, m_minute := 0, m_second := 0, m_millisecond := 0\<rparr>"
| "startOf_datetime Month d =
     d\<lparr>m_date := 1, m_hour := 0, m_minute := 0, m_second := 0, m_millisecond := 0\<rparr>"
| "startOf_datetime Day d = d\<lparr>m_hour := 0, m_minute := 0, m_second := 0, m_millisecond := 0\<rparr>"
| "startOf_datetime Hour d = d\<lparr>m_minute := 0, m_second := 0, m_millisecond := 0\<rparr>"
| "startOf_datetime Minute d = d\<lparr>m_second := 0, m_millisecond := 0\<rparr>"
| "startOf_datetime Second d = d\<lparr>m_millisecond := 0\<rparr>"
| "startOf_datetime Millisecond d = d"

fun startOf :: "DateUnit \<Rightarrow> moment \<Rightarrow> moment" where
  "startOf unit (Valid d) = Valid (startOf_datetime unit d)"
| "startOf unit Invalid = Invalid"

text \<open>
  The library's \<^verbatim>\<open>addSubtract\<close> for \<open>n\<close> units: years and months move the month (with
  \<^verbatim>\<open>setMonth\<close>), days move the day of the month, the finer units move the time.
\<close>

fun add_units_datetime :: "int \<Rightarrow> DateUnit \<Rightarrow> datetime \<Rightarrow> datetime" where
  "add_units_datetime n Year d = (if n = 0 then d else setMonth (m_month d + 12 * n) d)"
| "add_units_datetime n Month d = (if n = 0 then d else setMonth (m_month d + n) d)"
| "add_units_datetime n Day d = normalise (d\<lparr>m_date := m_date d + n\<rparr>)"
| "add_units_datetime n Hour d = normalise (d\<lparr>m_hour := m_hour d + n\<rparr>)"
| "add_units_datetime n Minute d = normalise (d\<lparr>m_minute := m_minute d + n\<rparr>)"
| "add_units_datetime n Second d = normalise (d\<lparr>m_second := m_second d + n\<rparr>)"
| "add_units_datetime n Millisecond d = normalise (d\<lparr>m_millisecond := m_millisecond d + n\<rparr>)"

text \<open>
  The first argument of \<^verbatim>\<open>m.add(amount, unit)\<close> and \<^verbatim>\<open>m.subtract(amount, unit)\<close>: a
  number, or a string that is the name of a unit and no number.
\<close>

datatype amount = Amount int | UnitName DateUnit

text \<open>
  \<^verbatim>\<open>m.add(amount, unit)\<close>. The library builds a duration from the amount: a number with a
  unit is that many units; the name of a unit where the amount belongs is neither a
  number nor a duration, and the duration built from it is empty, with or without a unit
  after it. A number without a unit counts milliseconds.
\<close>

fun moment_add :: "amount \<Rightarrow> DateUnit option \<Rightarrow> moment \<Rightarrow> moment" where
  "moment_add a u Invalid = Invalid"
| "moment_add (Amount n) (Some unit) (Valid d) = Valid (add_units_datetime n unit d)"
| "moment_add (Amount n) None (Valid d) = Valid (add_units_datetime n Millisecond d)"
| "moment_add (UnitName name) u (Valid d) = Valid d"

fun moment_subtract :: "amount \<Rightarrow> DateUnit option \<Rightarrow> moment \<Rightarrow> moment" where
  "moment_subtract a u Invalid = Invalid"
| "moment_subtract (Amount n) (Some unit) (Valid d) = Valid (add_units_datetime (- n) unit d)"
| "moment_subtract (Amount n) None (Valid d) = Valid (add_units_datetime (- n) Millisecond d)"
| "moment_subtract (UnitName name) u (Valid d) = Valid d"

text \<open>
  Comparison of moments is comparison of their instants; for valid UTC date-times that
  is the lexicographic order of the fields. An invalid moment is neither before, after
  nor the same as anything.
\<close>

definition datetime_fields :: "datetime \<Rightarrow> int list" where
  "datetime_fields d = map (\<lambda>u. datetime_field u d) ALL_DATE_UNITS"

fun isBefore :: "moment \<Rightarrow> moment \<Rightarrow> bool" where
  "isBefore (Valid a) (Valid b) \<longleftrightarrow> datetime_fields a < datetime_fields b"
| "isBefore a b \<longleftrightarrow> False"

fun isSame :: "moment \<Rightarrow> moment \<Rightarrow> bool" where
  "isSame (Valid a) (Valid b) \<longleftrightarrow> a = b"
| "isSame a b \<longleftrightarrow> False"

definition isAfter :: "moment \<Rightarrow> moment \<Rightarrow> bool" where
  "isAfter a b \<longleftrightarrow> isBefore b a"

text \<open>
  \<^verbatim>\<open>ZERO_DATE\<close>: \<^verbatim>\<open>moment.utc().startOf('year').set('year', 1)\<close>, the first instant of
  year 1 whatever the current time is.
\<close>

definition ZERO_DATE :: moment where
  "ZERO_DATE = Valid \<lparr> m_year = 1, m_month = 0, m_date = 1,
                       m_hour = 0, m_minute = 0, m_second = 0, m_millisecond = 0 \<rparr>"

section \<open>Objects of date components\<close>

text \<open>
  A \<^verbatim>\<open>DateComponents\<close> object: the keys it has, each with a number or \<^verbatim>\<open>undefined\<close>
  (\<open>None\<close>). \<^verbatim>\<open>comps[unit]\<close> is \<^verbatim>\<open>undefined\<close> for a missing key too. The objects of the
  code get their keys in ladder order, which is then the order of \<^verbatim>\<open>Object.keys\<close> and
  \<^verbatim>\<open>_.forIn\<close>. \<^verbatim>\<open>_.isEqual\<close> on two such objects is equality of the maps.
\<close>

type_synonym DateComponents = "DateUnit \<rightharpoonup> number option"

definition lookup :: "DateComponents \<Rightarrow> DateUnit \<Rightarrow> number option" where
  "lookup comps unit = (case comps unit of None \<Rightarrow> None | Some v \<Rightarrow> v)"

definition object_keys :: "DateComponents \<Rightarrow> DateUnit list" where
  "object_keys comps = filter (\<lambda>unit. comps unit \<noteq> None) ALL_DATE_UNITS"

definition getDateComponent :: "moment \<Rightarrow> DateUnit \<Rightarrow> number" where
  "getDateComponent m unit = graphDateValue (moment_get unit m) unit"

text \<open>
  \<^verbatim>\<open>getDateComponents\<close>. Its check \<^verbatim>\<open>isResolution(resolution)\<close> holds for every value of
  the type \<^verbatim>\<open>DateUnit\<close>.
\<close>

definition getDateComponents :: "moment \<Rightarrow> DateUnit \<Rightarrow> DateComponents" where
  "getDateComponents m res =
     foldl (\<lambda>comps r. comps(r \<mapsto> Some (getDateComponent m r))) Map.empty
       (units_upto ALL_DATE_UNITS res)"

definition downsampleDateComponents :: "DateComponents \<Rightarrow> DateUnit \<Rightarrow> DateComponents" where
  "downsampleDateComponents components res =
     foldl (\<lambda>newComponents r. newComponents(r \<mapsto> lookup components r)) Map.empty
       (units_upto ALL_DATE_UNITS res)"

definition getDateComponentRange ::
  "DateComponents \<Rightarrow> DateComponents \<Rightarrow> DateComponents \<Rightarrow> DateUnit
     \<Rightarrow> number option \<times> number option" where
  "getDateComponentRange comps startComps endComps unit =
     (let startVal = lookup startComps unit; endVal = lookup endComps unit
      in if startVal = None \<and> endVal = None then (startVal, endVal)
         else case getBiggerUnit unit of
           None \<Rightarrow> (startVal, endVal)
         | Some upUnit \<Rightarrow>
             (let upComps = downsampleDateComponents comps upUnit;
                  startVal' =
                    (if startVal \<noteq> None
                        \<and> downsampleDateComponents startComps upUnit \<noteq> upComps
                     then None else startVal);
                  endVal' =
                    (if endVal \<noteq> None
                        \<and> downsampleDateComponents endComps upUnit \<noteq> upComps
                     then None else endVal)
              in (startVal', endVal')))"

text \<open>
  The loop of \<^verbatim>\<open>getDateWithComponents\<close> over the ladder: it stops at the first unit
  that is not a key of the object, and after the resolution when one is given.
\<close>

fun setComponents :: "DateUnit list \<Rightarrow> DateComponents \<Rightarrow> DateUnit option \<Rightarrow> moment \<Rightarrow> moment" where
  "setComponents [] comps res m = m"
| "setComponents (r # rest) comps res m =
     (case comps r of
        None \<Rightarrow> m
      | Some val \<Rightarrow>
          (let m' = moment_set r (nativeDateValue val r) m
           in if Some r = res then m' else setComponents rest comps res m'))"

definition getDateWithComponents :: "DateComponents \<Rightarrow> DateUnit option \<Rightarrow> moment" where
  "getDateWithComponents comps res = setComponents ALL_DATE_UNITS comps res ZERO_DATE"

section \<open>Node references of the store\<close>

text \<open>
  A chain reference of the store is the Gun instance or \<^verbatim>\<open>ref.get(key)\<close>; the store
  hands out one reference for one path, so that \<^verbatim>\<open>===\<close> on references is equality of
  paths. \<^verbatim>\<open>ref.get\<close> with a key that is no string gives a reference that only carries
  an error. \<^verbatim>\<open>ref.back()\<close> is the parent, absent at the Gun instance; \<^verbatim>\<open>ref._.get\<close> is
  the key of the reference.
\<close>

datatype gunref = GunRoot | Get gunref string | ErrorChain gunref

fun gun_get :: "gunref \<Rightarrow> string option \<Rightarrow> gunref" where
  "gun_get ref (Some key) = Get ref key"
| "gun_get ref None = ErrorChain ref"



section \<open>The date tree\<close>

record DateTree =
  root :: gunref
  resolution :: DateUnit

datatype error = InvalidResolution | InvalidReference | UnexpectedDate | TypeError | NoSuchUnit

text \<open>
  \<^verbatim>\<open>_getRefChain\<close>: from the root, one \<^verbatim>\<open>get\<close> for each key of the components, in the
  order of the keys.
\<close>

definition getRefChain :: "DateTree \<Rightarrow> moment \<Rightarrow> gunref list" where
  "getRefChain tree m =
     (let comps = getDateComponents m (resolution tree)
      in snd (foldl (\<lambda>(ref, refs) unit.
                 (let ref' = gun_get ref (encodeDateComponent (lookup comps unit) unit)
                  in (ref', refs @ [ref'])))
               (root tree, [root tree]) (object_keys comps)))"

text \<open>\<^verbatim>\<open>get\<close>: the last reference of the chain, which always has the root in it.\<close>

definition get :: "DateTree \<Rightarrow> moment \<Rightarrow> gunref" where
  "get tree m = last (getRefChain tree m)"






subsection \<open>Watching the path of a date\<close>

text \<open>\<^verbatim>\<open>a !== b\<close> on numbers and \<^verbatim>\<open>undefined\<close>: \<^verbatim>\<open>NaN\<close> differs from itself.\<close>

definition strict_neq :: "number option \<Rightarrow> number option \<Rightarrow> bool" where
  "strict_neq a b \<longleftrightarrow> a \<noteq> b \<or> a = Some NaN"

text \<open>
  The listener that \<^verbatim>\<open>changesAbout\<close> puts on the node of a unit. It is given the changed
  keys with their values and calls the callback in the order of the keys; the result
  here is the list of the arguments of these calls.
\<close>

fun on_changes :: "DateComponents \<Rightarrow> DateUnit \<Rightarrow> (string \<times> 'v) list \<Rightarrow> DateComponents list" where
  "on_changes comps unit [] = []"
| "on_changes comps unit ((key, val) # changes) =
     (if key = ''_'' then on_changes comps unit changes
      else
        let changeComps = downsampleDateComponents comps unit;
            compVal = decodeDateComponent key
        in if strict_neq (Some compVal) (lookup changeComps unit)
           then changeComps(unit \<mapsto> Some compVal) # on_changes comps unit changes
           else on_changes comps unit changes)"

text \<open>
  \<^verbatim>\<open>changesAbout\<close>: the table \<^verbatim>\<open>_.zipObject(units, refs)\<close> pairs every unit of the
  components with a reference of the chain, the first unit with the root; each pair gets
  the listener of its unit. The result lists the subscriptions: unit, node, listener.
\<close>

definition changesAbout ::
  "DateTree \<Rightarrow> moment
     \<Rightarrow> (DateUnit \<times> gunref \<times> ((string \<times> 'v) list \<Rightarrow> DateComponents list)) list" where
  "changesAbout tree m =
     (let comps = getDateComponents m (resolution tree);
          units = object_keys comps;
          refs = getRefChain tree m
      in map (\<lambda>(unit, ref). (unit, ref, on_changes comps unit)) (zip units refs))"

subsection \<open>Neighbouring dates\<close>

text \<open>
  Moments are objects that \<^verbatim>\<open>startOf\<close>, \<^verbatim>\<open>add\<close> and \<^verbatim>\<open>subtract\<close> change in place and
  return. The heap holds the moment objects by address; \<^verbatim>\<open>parseDate\<close>
  (\<^verbatim>\<open>moment.utc(date)\<close>) makes a new object.
\<close>

record heap =
  next_addr :: nat
  cell :: "nat \<Rightarrow> moment"

definition parseDate :: "moment \<Rightarrow> heap \<Rightarrow> nat \<times> heap" where
  "parseDate v h =
     (next_addr h, h\<lparr>next_addr := Suc (next_addr h), cell := (cell h)(next_addr h := v)\<rparr>)"

definition startOf_at :: "DateUnit \<Rightarrow> nat \<Rightarrow> heap \<Rightarrow> nat \<times> heap" where
  "startOf_at unit a h = (a, h\<lparr>cell := (cell h)(a := startOf unit (cell h a))\<rparr>)"

definition add_at :: "amount \<Rightarrow> DateUnit option \<Rightarrow> nat \<Rightarrow> heap \<Rightarrow> nat \<times> heap" where
  "add_at amt unit a h = (a, h\<lparr>cell := (cell h)(a := moment_add amt unit (cell h a))\<rparr>)"

definition subtract_at :: "amount \<Rightarrow> DateUnit option \<Rightarrow> nat \<Rightarrow> heap \<Rightarrow> nat \<times> heap" where
  "subtract_at amt unit a h =
     (a, h\<lparr>cell := (cell h)(a := moment_subtract amt unit (cell h a))\<rparr>)"

definition nextDate :: "DateTree \<Rightarrow> moment \<Rightarrow> heap \<Rightarrow> nat \<times> heap" where
  "nextDate tree date h =
     (let (m, h1) = parseDate date h;
          (floor, h2) = startOf_at (resolution tree) m h1;
          (next, h3) = add_at (Amount 1) (Some (resolution tree)) floor h2
      in (next, h3))"

definition previousDate :: "DateTree \<Rightarrow> moment \<Rightarrow> heap \<Rightarrow> nat \<times> heap" where
  "previousDate tree date h =
     (let (m, h1) = parseDate date h;
          (floor, h2) = startOf_at (resolution tree) m h1
      in if isSame (cell h2 floor) (cell h2 m)
         then subtract_at (Amount 1) (Some (resolution tree)) floor h2
         else (floor, h2))"

subsection \<open>Enumerating dates\<close>

text \<open>
  The generator \<^verbatim>\<open>iterateDates\<close>. Its state between two steps is the heap and the
  addresses of \<^verbatim>\<open>date\<close> and \<^verbatim>\<open>mEnd\<close>. \<^verbatim>\<open>date.add(resolution)\<close> passes the name of the
  unit as the amount and no unit. The argument \<^verbatim>\<open>end\<close> of the source is \<open>finish\<close> here.
\<close>

definition iterateDates_start :: "moment \<Rightarrow> moment \<Rightarrow> DateUnit \<Rightarrow> heap \<Rightarrow> nat \<times> nat \<times> heap" where
  "iterateDates_start start finish res h =
     (let (s, h1) = parseDate start h;
          (mStart, h2) = startOf_at res s h1;
          (e, h3) = parseDate finish h2;
          (mEnd, h4) = startOf_at res e h3
      in (mStart, mEnd, h4))"

text \<open>
  The dates that the first \<open>n\<close> calls of \<^verbatim>\<open>next()\<close> on the generator yield, each as it
  is when it is yielded. The generator has returned within \<open>n\<close> calls when the list is
  shorter than \<open>n\<close>.
\<close>

fun iterateDates_loop :: "nat \<Rightarrow> DateUnit \<Rightarrow> nat \<times> nat \<times> heap \<Rightarrow> moment list" where
  "iterateDates_loop 0 res st = []"
| "iterateDates_loop (Suc n) res (date, mEnd, h) =
     (if isBefore (cell h date) (cell h mEnd)
      then cell h date #
           (let (date', h') = add_at (UnitName res) None date h
            in iterateDates_loop n res (date', mEnd, h'))
      else [])"

definition iterateDates :: "nat \<Rightarrow> moment \<Rightarrow> moment \<Rightarrow> DateUnit \<Rightarrow> heap \<Rightarrow> moment list" where
  "iterateDates n start finish res h =
     iterateDates_loop n res (iterateDates_start start finish res h)"

subsection \<open>The first leaf after or before a date\<close>

text \<open>
  The \<^verbatim>\<open>for await\<close> loops of \<^verbatim>\<open>next\<close> and \<^verbatim>\<open>previous\<close> over the pairs that the
  iteration yields: a pair with the very date is skipped, a pair on the wrong side of
  the date throws, any other pair is returned; without a pair the result is
  \<^verbatim>\<open>[undefined, undefined]\<close> (\<open>None\<close>).
\<close>

fun next_loop :: "moment option \<Rightarrow> (gunref \<times> moment) list \<Rightarrow> error + (gunref \<times> moment) option" where
  "next_loop date [] = Inr None"
| "next_loop date ((ref, refDate) # it) =
     (case date of
        Some d \<Rightarrow>
          if isSame refDate d then next_loop date it
          else if isBefore refDate d then Inl UnexpectedDate
          else Inr (Some (ref, refDate))
      | None \<Rightarrow> Inr (Some (ref, refDate)))"

fun previous_loop :: "moment option \<Rightarrow> (gunref \<times> moment) list \<Rightarrow> error + (gunref \<times> moment) option" where
  "previous_loop date [] = Inr None"
| "previous_loop date ((ref, refDate) # it) =
     (case date of
        Some d \<Rightarrow>
          if isSame refDate d then previous_loop date it
          else if isAfter refDate d then Inl UnexpectedDate
          else Inr (Some (ref, refDate))
      | None \<Rightarrow> Inr (Some (ref, refDate)))"

subsection \<open>Walking back from a reference\<close>



section \<open>The store and its ordered listing\<close>

text \<open>
  The store, as far as the tree reads it: the references that hold data. A put through
  \<^verbatim>\<open>ref.get(k1)...get(kn).put(value)\<close> links every node of the path to its child, so the
  keys of a node are the keys that lead from it towards a reference with data.
\<close>

type_synonym store = "gunref list"

definition put :: "DateTree \<Rightarrow> moment \<Rightarrow> store \<Rightarrow> gunref \<times> store" where
  "put tree date st = (let ref = get tree date in (ref, ref # st))"

text \<open>The key under which a node has the reference, or an ancestor of it, as its child.\<close>

fun child_key :: "gunref \<Rightarrow> gunref \<Rightarrow> string option" where
  "child_key node GunRoot = None"
| "child_key node (Get p key) = (if p = node then Some key else child_key node p)"
| "child_key node (ErrorChain p) = child_key node p"

definition node_keys :: "store \<Rightarrow> gunref \<Rightarrow> string list" where
  "node_keys st node = sorted_list_of_set (set (List.map_filter (child_key node) st))"

record IterateOptions =
  key_start :: "string option"
  key_end :: "string option"
  key_startInclusive :: bool
  key_endInclusive :: bool
  key_reverse :: bool

definition in_key_range :: "IterateOptions \<Rightarrow> string \<Rightarrow> bool" where
  "in_key_range opts key \<longleftrightarrow>
     (case key_start opts of
        None \<Rightarrow> True
      | Some s \<Rightarrow> if key_startInclusive opts then s \<le> key else s < key)
     \<and> (case key_end opts of
        None \<Rightarrow> True
      | Some e \<Rightarrow> if key_endInclusive opts then key \<le> e else key < e)"

text \<open>
  Modelled from the spec: \<^verbatim>\<open>iterateRefs\<close> of \<^verbatim>\<open>./iterate\<close>, which is not among the
  sources. It is the store contract \<^verbatim>\<open>children(node, {startKey, endKey, startInclusive,
  endInclusive, reverse})\<close>: the children of the node with their keys, ordered
  lexicographically by key, ascending or descending per \<^verbatim>\<open>reverse\<close>, within the
  bounds and their inclusivity; an absent bound does not restrict its side.
\<close>

definition iterateRefs :: "store \<Rightarrow> gunref \<Rightarrow> IterateOptions \<Rightarrow> (gunref \<times> string) list" where
  "iterateRefs st node opts =
     (let keys = filter (in_key_range opts) (node_keys st node)
      in map (\<lambda>key. (Get node key, key)) (if key_reverse opts then rev keys else keys))"

text \<open>\<^verbatim>\<open>_iterateRef\<close>: the children with their decoded keys.\<close>

definition iterateRef :: "store \<Rightarrow> gunref \<Rightarrow> IterateOptions \<Rightarrow> (gunref \<times> number) list" where
  "iterateRef st node opts =
     map (\<lambda>(innerRef, key). (innerRef, decodeDateComponent key)) (iterateRefs st node opts)"

section \<open>Range iteration\<close>

record DateIterateOptions =
  date_start :: "moment option"
  date_end :: "moment option"
  startInclusive :: bool
  endInclusive :: bool
  reverse :: bool

text \<open>
  What stays fixed during one call of \<^verbatim>\<open>iterate\<close>: the store, the tree, and the options
  with the components of the two bounds (\<^verbatim>\<open>{}\<close> for an absent bound).
\<close>

record iter_env =
  env_store :: store
  env_tree :: DateTree
  env_opts :: DateIterateOptions

definition startComps_of :: "iter_env \<Rightarrow> DateComponents" where
  "startComps_of env =
     (case date_start (env_opts env) of
        None \<Rightarrow> Map.empty
      | Some start \<Rightarrow> getDateComponents start (resolution (env_tree env)))"

definition endComps_of :: "iter_env \<Rightarrow> DateComponents" where
  "endComps_of env =
     (case date_end (env_opts env) of
        None \<Rightarrow> Map.empty
      | Some finish \<Rightarrow> getDateComponents finish (resolution (env_tree env)))"

text \<open>
  The listing that the loop opens on a node for a unit: the bounds of
  \<^verbatim>\<open>getDateComponentRange\<close>, encoded, both inclusive above the leaves.
\<close>

definition open_listing ::
  "iter_env \<Rightarrow> bool \<Rightarrow> DateUnit \<Rightarrow> gunref \<Rightarrow> DateComponents \<Rightarrow> (gunref \<times> number) list" where
  "open_listing env atLeaf unit node comps =
     (let (startVal, endVal) = getDateComponentRange comps (startComps_of env) (endComps_of env) unit;
          unitStartInclusive = (startInclusive (env_opts env) \<or> \<not> atLeaf);
          unitEndInclusive = (endInclusive (env_opts env) \<or> \<not> atLeaf)
      in iterateRef (env_store env) node
           \<lparr> key_start = encodeDateComponent startVal unit,
             key_end = encodeDateComponent endVal unit,
             key_startInclusive = unitStartInclusive,
             key_endInclusive = unitEndInclusive,
             key_reverse = reverse (env_opts env) \<rparr>)"

text \<open>
  The variables of the loop. The generators of \<^verbatim>\<open>_iterateRef\<close> are objects with a
  state: \<open>it_gens\<close> holds for every generator made so far what it has yet to yield;
  \<^verbatim>\<open>it\<close> and the entries of \<^verbatim>\<open>itStack\<close> are addresses of generators. \<open>it_out\<close> is the
  sequence yielded so far.
\<close>

record iter_state =
  it_ref :: "gunref option"
  it_comps :: DateComponents
  it_unitIndex :: int
  it_it :: "nat option"
  it_itStack :: "nat list"
  it_gens :: "nat \<Rightarrow> (gunref \<times> number) list"
  it_next_gen :: nat
  it_out :: "(gunref \<times> moment) list"

text \<open>The end of the loop body when \<^verbatim>\<open>goUp\<close> is set.\<close>

definition go_up :: "DateUnit \<Rightarrow> iter_state \<Rightarrow> iter_state" where
  "go_up unit s =
     s\<lparr> it_itStack := tl (it_itStack s),
        it_unitIndex := it_unitIndex s - 1,
        it_comps := (it_comps s)(unit := None) \<rparr>"

text \<open>
  One run of the body of the \<^verbatim>\<open>while\<close> loop. An index outside the units has no unit
  (the loop never gets there); \<^verbatim>\<open>itStack[0].next()\<close> on an empty stack is a type error.
\<close>

definition iterate_step :: "iter_env \<Rightarrow> iter_state \<Rightarrow> error + iter_state" where
  "iterate_step env s =
     (let units = allUnits (resolution (env_tree env));
          unitsLen = int (length units)
      in if \<not> it_unitIndex s < unitsLen then Inl NoSuchUnit
         else
           let unit = units ! nat (it_unitIndex s);
               atLeaf = (it_unitIndex s = unitsLen - 1);
               s1 = (case it_ref s of
                       None \<Rightarrow> s
                     | Some ref \<Rightarrow>
                         s\<lparr> it_gens := (it_gens s)
                              (it_next_gen s := open_listing env atLeaf unit ref (it_comps s)),
                            it_next_gen := Suc (it_next_gen s),
                            it_it := Some (it_next_gen s),
                            it_itStack := it_next_gen s # it_itStack s,
                            it_ref := None \<rparr>)
           in case (if atLeaf then it_it s1 else None) of
                Some g \<Rightarrow>
                  (let items = it_gens s1 g;
                       s2 = s1\<lparr> it_gens := (it_gens s1)(g := []),
                                it_comps := foldl (\<lambda>comps (innerRef, compVal).
                                                comps(unit \<mapsto> Some compVal))
                                              (it_comps s1) items,
                                it_out := it_out s1 @
                                  map (\<lambda>(innerRef, compVal).
                                         (innerRef,
                                          getDateWithComponents
                                            ((it_comps s1)(unit \<mapsto> Some compVal))
                                            (Some (resolution (env_tree env)))))
                                    items \<rparr>
                   in Inr (go_up unit s2))
              | None \<Rightarrow>
                  (case it_itStack s1 of
                     [] \<Rightarrow> Inl TypeError
                   | g # stack \<Rightarrow>
                       (case it_gens s1 g of
                          [] \<Rightarrow> Inr (go_up unit s1)
                        | (innerRef, compVal) # rest \<Rightarrow>
                            Inr (s1\<lparr> it_gens := (it_gens s1)(g := rest),
                                     it_ref := Some innerRef,
                                     it_comps := (it_comps s1)(unit \<mapsto> Some compVal),
                                     it_unitIndex := it_unitIndex s1 + 1 \<rparr>))))"

text \<open>
  The loop \<^verbatim>\<open>while (unitIndex >= 0)\<close>. It returns the yielded sequence when it ends;
  a loop that does not end has the value \<open>None\<close>.
\<close>

partial_function (option) iterate_loop ::
  "iter_env \<Rightarrow> iter_state \<Rightarrow> (error + (gunref \<times> moment) list) option" where
  "iterate_loop env s =
     (if it_unitIndex s < 0 then Some (Inr (it_out s))
      else case iterate_step env s of
             Inl e \<Rightarrow> Some (Inl e)
           | Inr s' \<Rightarrow> iterate_loop env s')"

declare iterate_loop.simps [code]

definition iterate :: "DateTree \<Rightarrow> store \<Rightarrow> DateIterateOptions
    \<Rightarrow> (error + (gunref \<times> moment) list) option" where
  "iterate tree st opts =
     iterate_loop \<lparr> env_store = st, env_tree = tree, env_opts = opts \<rparr>
       \<lparr> it_ref = Some (root tree), it_comps = Map.empty, it_unitIndex = 0,
         it_it = None, it_itStack = [], it_gens = (\<lambda>g. []), it_next_gen = 0,
         it_out = [] \<rparr>"

text \<open>
  \<^verbatim>\<open>next\<close> and \<^verbatim>\<open>previous\<close>: the iteration from the date on, the bound itself
  excluded, and the loops above over what it yields. \<^verbatim>\<open>earliest\<close> and \<^verbatim>\<open>latest\<close> are
  the two without a date.
\<close>

definition next_leaf :: "DateTree \<Rightarrow> store \<Rightarrow> moment option
    \<Rightarrow> (error + (gunref \<times> moment) option) option" where
  "next_leaf tree st date =
     (case iterate tree st \<lparr> date_start = date, date_end = None, startInclusive = False,
                               endInclusive = True, reverse = False \<rparr> of
        None \<Rightarrow> None
      | Some (Inl e) \<Rightarrow> Some (Inl e)
      | Some (Inr it) \<Rightarrow> Some (next_loop date it))"

definition previous_leaf :: "DateTree \<Rightarrow> store \<Rightarrow> moment option
    \<Rightarrow> (error + (gunref \<times> moment) option) option" where
  "previous_leaf tree st date =
     (case iterate tree st \<lparr> date_start = None, date_end = date, startInclusive = True,
                               endInclusive = False, reverse = True \<rparr> of
        None \<Rightarrow> None
      | Some (Inl e) \<Rightarrow> Some (Inl e)
      | Some (Inr it) \<Rightarrow> Some (previous_loop date it))"

definition earliest :: "DateTree \<Rightarrow> store \<Rightarrow> (error + (gunref \<times> moment) option) option" where
  "earliest tree st = next_leaf tree st None"

definition latest :: "DateTree \<Rightarrow> store \<Rightarrow> (error + (gunref \<times> moment) option) option" where
  "latest tree st = previous_leaf tree st None"

text \<open>
  The traversal as a recursion over the units that remain below a node: every child of
  the listing is scanned in turn; below the last unit the node is a leaf and is yielded
  with the date of the components.
\<close>

fun scan :: "iter_env \<Rightarrow> DateUnit list \<Rightarrow> gunref \<Rightarrow> DateComponents \<Rightarrow> (gunref \<times> moment) list" where
  "scan env [] node comps =
     [(node, getDateWithComponents comps (Some (resolution (env_tree env))))]"
| "scan env (unit # units) node comps =
     concat (map (\<lambda>(innerRef, compVal). scan env units innerRef (comps(unit \<mapsto> Some compVal)))
               (open_listing env (units = []) unit node comps))"

section \<open>Dates and stores for the statements on range iteration\<close>

text \<open>
  The component of a date at a unit as the tree has it (the month from 1), the list of
  the components at some units, the key of a value, and the node and the object of
  components that the traversal has reached when it has followed a date through some
  units.
\<close>

definition component :: "datetime \<Rightarrow> DateUnit \<Rightarrow> int" where
  "component d u = datetime_field u d + (if u = Month then 1 else 0)"

definition components :: "DateUnit list \<Rightarrow> datetime \<Rightarrow> int list" where
  "components us d = map (component d) us"

definition unit_key :: "DateUnit \<Rightarrow> int \<Rightarrow> string" where
  "unit_key u v = fixed (DATE_COMP_PADS u) (nat v)"

definition node_at :: "DateTree \<Rightarrow> DateUnit list \<Rightarrow> datetime \<Rightarrow> gunref" where
  "node_at tree us d = foldl Get (root tree) (map (\<lambda>u. unit_key u (component d u)) us)"

definition comps_at :: "DateUnit list \<Rightarrow> datetime \<Rightarrow> DateComponents" where
  "comps_at us d = (\<lambda>u. if u \<in> set us then Some (Some (Fin (component d u))) else None)"

text \<open>
  The values that fit the width of the keys of a unit, and the dates whose keys have the
  widths of the codec: the valid dates of the years 0 to 9999.
\<close>

definition codec_value :: "DateUnit \<Rightarrow> int \<Rightarrow> bool" where
  "codec_value u v \<longleftrightarrow> 0 \<le> v \<and> nat v < 10 ^ DATE_COMP_PADS u"

definition codec_date :: "datetime \<Rightarrow> bool" where
  "codec_date d \<longleftrightarrow> valid_datetime d \<and> 0 \<le> m_year d \<and> m_year d \<le> 9999"

text \<open>The store after a value has been put at every date of a list.\<close>

definition populate :: "DateTree \<Rightarrow> datetime list \<Rightarrow> store" where
  "populate tree ds = foldl (\<lambda>st d. snd (put tree (Valid d) st)) [] ds"

text \<open>
  The options \<^verbatim>\<open>{start, end}\<close> with the defaults of \<^verbatim>\<open>iterate\<close> for the two flags of
  inclusivity, the pair that the traversal yields for a date, and the order in which
  it yields two pairs.
\<close>

definition range_opts :: "datetime \<Rightarrow> datetime \<Rightarrow> bool \<Rightarrow> DateIterateOptions" where
  "range_opts S E rv =
     \<lparr> date_start = Some (Valid S), date_end = Some (Valid E), startInclusive = True,
       endInclusive = False, reverse = rv \<rparr>"

definition leaf_pair :: "DateTree \<Rightarrow> datetime \<Rightarrow> gunref \<times> moment" where
  "leaf_pair tree d = (get tree (Valid d), startOf (resolution tree) (Valid d))"

definition in_order :: "bool \<Rightarrow> gunref \<times> moment \<Rightarrow> gunref \<times> moment \<Rightarrow> bool" where
  "in_order rv a b \<longleftrightarrow> (if rv then isBefore (snd b) (snd a) else isBefore (snd a) (snd b))"

definition in_direction :: "bool \<Rightarrow> 'a list \<Rightarrow> 'a list" where
  "in_direction rv xs = (if rv then rev xs else xs)"

text \<open>
  The values of a unit below a node on the path of a date: the components at the unit
  of the dates that share the path. The bounds of one level: the value of the start
  bounds the level from below while the path has followed the start so far, the value
  of the end bounds it from above while the path has followed the end, and the end is
  excluded at the last level only. The bounds along a whole path, and the dates below a
  node that are within them.
\<close>

definition level_values :: "datetime list \<Rightarrow> DateUnit list \<Rightarrow> DateUnit \<Rightarrow> datetime \<Rightarrow> int set" where
  "level_values D pre u d0 =
     {component d u | d. d \<in> set D \<and> components pre d = components pre d0}"

definition level_ok :: "bool \<Rightarrow> bool \<Rightarrow> bool \<Rightarrow> int \<Rightarrow> int \<Rightarrow> int \<Rightarrow> bool" where
  "level_ok onStart onEnd atLeaf s e v \<longleftrightarrow>
     (onStart \<longrightarrow> s \<le> v) \<and> (onEnd \<longrightarrow> (if atLeaf then v < e else v \<le> e))"

fun in_bounds :: "bool \<Rightarrow> bool \<Rightarrow> int list \<Rightarrow> int list \<Rightarrow> int list \<Rightarrow> bool" where
  "in_bounds onStart onEnd (s # ss) (e # es) (t # ts) \<longleftrightarrow>
     level_ok onStart onEnd (ts = []) s e t
     \<and> in_bounds (onStart \<and> s = t) (onEnd \<and> e = t) ss es ts"
| "in_bounds onStart onEnd ss es ts \<longleftrightarrow> True"

definition path_set ::
  "datetime list \<Rightarrow> datetime \<Rightarrow> datetime \<Rightarrow> DateUnit list \<Rightarrow> DateUnit list \<Rightarrow> datetime
     \<Rightarrow> datetime set" where
  "path_set D S E pre us d0 =
     {d \<in> set D. components pre d = components pre d0
        \<and> in_bounds (components pre d0 = components pre S) (components pre d0 = components pre E)
            (components us S) (components us E) (components us d)}"

section \<open>Example data\<close>

text \<open>
  A range from August 2020 to March 2021 at the resolution of months, and the
  components chosen so far by a traversal that stands on the year 2020.
\<close>

definition spine_year :: DateComponents where
  "spine_year = [Year \<mapsto> Some (Fin 2020)]"

definition range_start :: DateComponents where
  "range_start = [Year \<mapsto> Some (Fin 2020), Month \<mapsto> Some (Fin 8)]"

definition range_end :: DateComponents where
  "range_end = [Year \<mapsto> Some (Fin 2021), Month \<mapsto> Some (Fin 3)]"

text \<open>
  The tree of the repository's example: the root \<^verbatim>\<open>gun.get('tree-get')\<close> at the
  resolution of days, and a moment in the course of 23 August 2020.
\<close>

definition example_tree :: DateTree where
  "example_tree = \<lparr> root = Get GunRoot ''tree-get'', resolution = Day \<rparr>"

definition example_date :: moment where
  "example_date = Valid \<lparr> m_year = 2020, m_month = 7, m_date = 23,
                           m_hour = 12, m_minute = 34, m_second = 56, m_millisecond = 789 \<rparr>"

definition empty_heap :: heap where
  "empty_heap = \<lparr> next_addr = 0, cell = (\<lambda>a. Invalid) \<rparr>"

text \<open>The first instants of three days of January 2020, and a leaf for the first.\<close>

definition jan_1 :: moment where
  "jan_1 = Valid \<lparr> m_year = 2020, m_month = 0, m_date = 1,
                    m_hour = 0, m_minute = 0, m_second = 0, m_millisecond = 0 \<rparr>"

definition jan_2 :: moment where
  "jan_2 = Valid \<lparr> m_year = 2020, m_month = 0, m_date = 2,
                    m_hour = 0, m_minute = 0, m_second = 0, m_millisecond = 0 \<rparr>"

definition jan_3 :: moment where
  "jan_3 = Valid \<lparr> m_year = 2020, m_month = 0, m_date = 3,
                    m_hour = 0, m_minute = 0, m_second = 0, m_millisecond = 0 \<rparr>"

definition jan_1_leaf :: gunref where
  "jan_1_leaf = Get (Get (Get (Get GunRoot ''tree-get'') ''2020'') ''01'') ''01''"


text \<open>
  The first instants of four days of 2020: the leaves and the bounds of a listing of
  August at the resolution of days.
\<close>

definition aug_1 :: datetime where
  "aug_1 = \<lparr> m_year = 2020, m_month = 7, m_date = 1,
               m_hour = 0, m_minute = 0, m_second = 0, m_millisecond = 0 \<rparr>"

definition aug_10 :: datetime where
  "aug_10 = \<lparr> m_year = 2020, m_month = 7, m_date = 10,
                m_hour = 0, m_minute = 0, m_second = 0, m_millisecond = 0 \<rparr>"

definition aug_23 :: datetime where
  "aug_23 = \<lparr> m_year = 2020, m_month = 7, m_date = 23,
                m_hour = 0, m_minute = 0, m_second = 0, m_millisecond = 0 \<rparr>"

definition sep_1 :: datetime where
  "sep_1 = \<lparr> m_year = 2020, m_month = 8, m_date = 1,
               m_hour = 0, m_minute = 0, m_second = 0, m_millisecond = 0 \<rparr>"

definition aug_23_leaf :: gunref where
  "aug_23_leaf = Get (Get (Get (Get GunRoot ''tree-get'') ''2020'') ''08'') ''23''"

section \<open>Properties of the codec\<close>

lemma digits_small: "n < 10 \<Longrightarrow> digits n = [digit_char n]"
  by (subst digits.simps) simp

lemma digits_large: "\<not> n < 10 \<Longrightarrow> digits n = digits (n div 10) @ [digit_char (n mod 10)]"
  by (subst digits.simps) simp

lemma DATE_COMP_PADS_simps:
  "DATE_COMP_PADS Year = 4" "DATE_COMP_PADS Month = 2" "DATE_COMP_PADS Day = 2"
  "DATE_COMP_PADS Hour = 2" "DATE_COMP_PADS Minute = 2" "DATE_COMP_PADS Second = 2"
  "DATE_COMP_PADS Millisecond = 3"
  by (simp_all add: DATE_COMP_PADS_def MAX_DATE_COMPS_def ALL_DATE_UNITS_def
        graphDateValue_def digits_small digits_large)

lemma length_digits: "0 < w \<Longrightarrow> n < 10 ^ w \<Longrightarrow> length (digits n) \<le> w"
proof (induction w arbitrary: n)
  case 0
  then show ?case by simp
next
  case (Suc w)
  show ?case
  proof (cases "n < 10")
    case True
    then show ?thesis by (simp add: digits_small)
  next
    case False
    then have "0 < w" using Suc.prems by (cases w) auto
    moreover have "n div 10 < 10 ^ w" using Suc.prems by (simp add: less_mult_imp_div_less mult.commute)
    ultimately have "length (digits (n div 10)) \<le> w" by (rule Suc.IH)
    with False show ?thesis by (simp add: digits_large)
  qed
qed

lemma digit_char_0: "digit_char 0 = CHR ''0''"
  by code_simp

lemma fixed_zero: "0 < w \<Longrightarrow> fixed w 0 = replicate w (CHR ''0'')"
  by (cases w) (simp_all add: fixed_def padStart_def digits_small digit_char_0 replicate_append_same)

lemma fixed_Suc:
  assumes "0 < w"
  shows "fixed (Suc w) n = fixed w (n div 10) @ [digit_char (n mod 10)]"
proof (cases "n < 10")
  case True
  then show ?thesis using assms
    by (simp add: fixed_zero) (simp add: fixed_def padStart_def digits_small)
next
  case False
  then show ?thesis
    by (simp add: fixed_def padStart_def digits_large [of n] Suc_diff_le)
qed

lemma length_fixed: "0 < w \<Longrightarrow> n < 10 ^ w \<Longrightarrow> length (fixed w n) = w"
  using length_digits [of w n] by (simp add: fixed_def padStart_def)

lemma digit_char_less: "a < b \<Longrightarrow> b < 10 \<Longrightarrow> digit_char a < digit_char b"
  by (simp add: digit_char_def less_char_def)

lemma divmod_less:
  assumes "(a::nat) < b"
  shows "a div 10 < b div 10 \<or> (a div 10 = b div 10 \<and> a mod 10 < b mod 10)"
proof (cases "a div 10 = b div 10")
  case True
  have "a = 10 * (a div 10) + a mod 10" and "b = 10 * (b div 10) + b mod 10"
    by simp_all
  with assms True have "a mod 10 < b mod 10" by linarith
  with True show ?thesis by simp
next
  case False
  have "a div 10 \<le> b div 10" using assms by (simp add: div_le_mono)
  with False show ?thesis by simp
qed

lemma fixed_less: "0 < w \<Longrightarrow> a < b \<Longrightarrow> b < 10 ^ w \<Longrightarrow> fixed w a < fixed w b"
proof (induction w arbitrary: a b)
  case 0
  then show ?case by simp
next
  case (Suc w)
  show ?case
  proof (cases "w = 0")
    case True
    with Suc.prems show ?thesis
      by (simp add: fixed_def padStart_def digits_small digit_char_less)
  next
    case False
    then have w: "0 < w" by simp
    have b10: "b div 10 < 10 ^ w" using Suc.prems by (simp add: less_mult_imp_div_less mult.commute)
    have a10: "a div 10 < 10 ^ w" using Suc.prems by (simp add: less_mult_imp_div_less mult.commute)
    consider "a div 10 < b div 10" | "a div 10 = b div 10" "a mod 10 < b mod 10"
      using divmod_less [OF Suc.prems(2)] by auto
    then show ?thesis
    proof cases
      case 1
      then have "fixed w (a div 10) < fixed w (b div 10)" using Suc.IH w b10 by blast
      then show ?thesis
        unfolding fixed_Suc [OF w] list_less_def
        by (rule lexord_sufI) (simp add: length_fixed w a10 b10)
    next
      case 2
      then show ?thesis
        unfolding fixed_Suc [OF w] list_less_def
        by (simp add: lexord_same_pref_iff digit_char_less)
    qed
  qed
qed

lemma valid_value_bound: "valid_value u v \<Longrightarrow> 0 \<le> v \<and> nat v < 10 ^ DATE_COMP_PADS u"
  by (cases u) (auto simp: DATE_COMP_PADS_simps)

lemma DATE_COMP_PADS_pos: "0 < DATE_COMP_PADS u"
  by (cases u) (simp_all add: DATE_COMP_PADS_simps)

lemma encode_valid:
  "0 \<le> v \<Longrightarrow> encodeDateComponent (Some (Fin v)) u = Some (fixed (DATE_COMP_PADS u) (nat v))"
  by (simp add: encodeDateComponent_def fixed_def)

lemma encode_less:
  assumes "valid_value u a" "valid_value u b" "a < b"
  shows "fixed (DATE_COMP_PADS u) (nat a) < fixed (DATE_COMP_PADS u) (nat b)"
  using assms valid_value_bound [of u a] valid_value_bound [of u b]
  by (intro fixed_less DATE_COMP_PADS_pos) auto

text \<open>
  Claim C3. For every unit and all valid values \<open>a\<close> and \<open>b\<close> of that unit, both are
  encoded, \<open>a < b\<close> makes the key of \<open>a\<close> smaller than the key of \<open>b\<close> in the
  lexicographic order of strings, and equal keys come from equal values only.
\<close>

theorem encodeDateComponent_order:
  assumes "valid_value unit a" and "valid_value unit b"
  shows "\<exists>ka kb. encodeDateComponent (Some (Fin a)) unit = Some ka
           \<and> encodeDateComponent (Some (Fin b)) unit = Some kb
           \<and> (a < b \<longrightarrow> ka < kb) \<and> (ka = kb \<longrightarrow> a = b)"
proof -
  have a0: "0 \<le> a" and b0: "0 \<le> b"
    using assms valid_value_bound by blast+
  let ?ka = "fixed (DATE_COMP_PADS unit) (nat a)"
  let ?kb = "fixed (DATE_COMP_PADS unit) (nat b)"
  have lt: "a < b \<longrightarrow> ?ka < ?kb" using encode_less assms by blast
  have "b < a \<longrightarrow> ?kb < ?ka" using encode_less assms by blast
  with lt have "?ka = ?kb \<longrightarrow> a = b"
    by (cases a b rule: linorder_cases) auto
  with lt show ?thesis by (simp add: encode_valid a0 b0)
qed

theorem encodeDateComponent_order_witness:
  "valid_value Year 999 \<and> valid_value Year 1000
   \<and> encodeDateComponent (Some (Fin 999)) Year = Some ''0999''
   \<and> encodeDateComponent (Some (Fin 1000)) Year = Some ''1000''
   \<and> ''0999'' < ''1000''"
proof -
  have e1: "encodeDateComponent (Some (Fin 999)) Year = Some ''0999''" by code_simp
  have e2: "encodeDateComponent (Some (Fin 1000)) Year = Some ''1000''" by code_simp
  show ?thesis using encodeDateComponent_order [of Year 999 1000] e1 e2 by simp
qed

lemma is_digit_digit_char: "d < 10 \<Longrightarrow> is_digit (digit_char d)"
  by (simp add: is_digit_def digit_char_def)

lemma digit_value_digit_char: "d < 10 \<Longrightarrow> digit_value (digit_char d) = d"
  by (simp add: digit_value_def digit_char_def)

lemma digits_all_digit: "c \<in> set (digits n) \<Longrightarrow> is_digit c"
proof (induction n arbitrary: c rule: digits.induct)
  case (1 n)
  show ?case
  proof (cases "n < 10")
    case True
    with "1.prems" show ?thesis by (simp add: digits_small is_digit_digit_char)
  next
    case False
    with "1.prems" "1.IH" show ?thesis
      by (auto simp: digits_large [of n] is_digit_digit_char)
  qed
qed

lemma digits_value_snoc: "digits_value (ds @ [c]) = 10 * digits_value ds + digit_value c"
  by (simp add: digits_value_def)

lemma digits_value_digits: "digits_value (digits n) = n"
proof (induction n rule: digits.induct)
  case (1 n)
  show ?case
  proof (cases "n < 10")
    case True
    then show ?thesis by (simp add: digits_small digits_value_def digit_value_digit_char)
  next
    case False
    with "1.IH" show ?thesis
      by (simp add: digits_large [of n] digits_value_snoc digit_value_digit_char)
  qed
qed

lemma digits_value_zeros: "digits_value (replicate k (CHR ''0'') @ ds) = digits_value ds"
proof -
  have "foldl (\<lambda>acc c. 10 * acc + digit_value c) 0 (replicate k (CHR ''0'')) = 0"
    by (induction k) (simp_all add: digit_value_def)
  then show ?thesis by (simp add: digits_value_def)
qed

lemma digits_nonempty: "digits n \<noteq> []"
  by (cases "n < 10") (simp_all add: digits_small digits_large)

lemma Math_round_nat: "Math_round (Fin (of_nat n)) = Fin (int n)"
proof -
  have "\<lfloor>(of_nat n :: rat) + 1 / 2\<rfloor> = int n" by linarith
  then show ?thesis by simp
qed

text \<open>A non-empty string of digits, followed by nothing that continues a literal.\<close>

lemma decode_digit_string:
  assumes "ds \<noteq> []" and "\<forall>c \<in> set ds. is_digit c"
    and "rest = [] \<or> (\<not> is_digit (hd rest) \<and> hd rest \<notin> {CHR ''.'', CHR ''e'', CHR ''E''})"
  shows "decodeDateComponent (ds @ rest) = Fin (int (digits_value ds))"
proof -
  obtain d ds' where ds: "ds = d # ds'" using assms(1) by (cases ds) auto
  have d: "is_digit d" using assms(2) ds by simp
  have nws: "\<not> is_whitespace d" using d by (auto simp: is_digit_def is_whitespace_def)
  have nsign: "d \<noteq> CHR ''+''" "d \<noteq> CHR ''-''" "d \<noteq> CHR ''I''"
    using d by (auto simp: is_digit_def)
  have tw: "takeWhile is_digit (ds @ rest) = ds" and dw: "dropWhile is_digit (ds @ rest) = rest"
    using assms(2,3) by (cases rest; simp add: takeWhile_append2 dropWhile_append2)+
  have pu: "parse_unsigned (ds @ rest) = Fin (of_nat (digits_value ds))"
  proof (cases rest)
    case Nil
    then show ?thesis using tw dw assms(1) nsign ds
      by (simp add: parse_unsigned_def Let_def)
  next
    case (Cons c r)
    then have "parse_exponent rest = 0" using assms(3) by (simp add: parse_exponent_def)
    then show ?thesis using tw dw assms(1,3) nsign ds Cons
      by (simp add: parse_unsigned_def Let_def pow10_def)
  qed
  have "parseFloat (ds @ rest) = Fin (of_nat (digits_value ds))"
    using nws nsign pu by (simp add: parseFloat_def ds)
  then show ?thesis by (simp only: decodeDateComponent_def Math_round_nat)
qed

lemma decode_padded:
  "decodeDateComponent (padStart w (CHR ''0'') (digits n)) = Fin (int n)"
proof -
  have "decodeDateComponent ((replicate (w - length (digits n)) (CHR ''0'') @ digits n) @ [])
        = Fin (int (digits_value (replicate (w - length (digits n)) (CHR ''0'') @ digits n)))"
  proof (rule decode_digit_string)
    show "replicate (w - length (digits n)) (CHR ''0'') @ digits n \<noteq> []"
      by (simp add: digits_nonempty)
    have "is_digit (CHR ''0'')" by (simp add: is_digit_def)
    then show "\<forall>c\<in>set (replicate (w - length (digits n)) (CHR ''0'') @ digits n). is_digit c"
      by (auto simp: digits_all_digit)
  qed simp
  then show ?thesis by (simp add: padStart_def digits_value_zeros digits_value_digits)
qed

subsection \<open>What the decoder reads\<close>

















section \<open>Properties of component objects\<close>

lemma foldl_upd_apply:
  "foldl (\<lambda>m r. m(r \<mapsto> f r)) m0 xs = (\<lambda>u. if u \<in> set xs then Some (f u) else m0 u)"
  by (induction xs arbitrary: m0) (auto simp: fun_eq_iff)

lemma downsample_apply:
  "downsampleDateComponents c r =
     (\<lambda>u. if u \<in> set (units_upto ALL_DATE_UNITS r) then Some (lookup c u) else None)"
  by (simp add: downsampleDateComponents_def foldl_upd_apply)

lemma getDateComponents_apply:
  "getDateComponents m r =
     (\<lambda>u. if u \<in> set (units_upto ALL_DATE_UNITS r) then Some (Some (getDateComponent m u)) else None)"
  by (simp add: getDateComponents_def foldl_upd_apply)

lemma downsample_eq_iff:
  "downsampleDateComponents a r = downsampleDateComponents b r
     \<longleftrightarrow> (\<forall>u \<in> set (units_upto ALL_DATE_UNITS r). lookup a u = lookup b u)"
  by (auto simp: downsample_apply fun_eq_iff)

lemma getBiggerUnit_Some:
  "getBiggerUnit u = Some up \<Longrightarrow> units_upto ALL_DATE_UNITS up = coarser_units u"
  by (cases u) (auto simp: getBiggerUnit_def coarser_units_def ALL_DATE_UNITS_def)

lemma getBiggerUnit_None: "getBiggerUnit u = None \<Longrightarrow> coarser_units u = []"
  by (cases u) (auto simp: getBiggerUnit_def coarser_units_def ALL_DATE_UNITS_def)

text \<open>
  Claim C2. The bound that \<^verbatim>\<open>getDateComponentRange\<close> gives for a unit is, on each side
  by itself, the value of the start (of the end) at the unit if and only if the start
  (the end) has a value at the unit and the components chosen so far agree with the
  start (the end) at every coarser unit; otherwise there is no bound on that side.
\<close>

theorem getDateComponentRange_spine:
  "getDateComponentRange comps startComps endComps unit =
     (if lookup startComps unit \<noteq> None
         \<and> (\<forall>v \<in> set (coarser_units unit). lookup comps v = lookup startComps v)
      then lookup startComps unit else None,
      if lookup endComps unit \<noteq> None
         \<and> (\<forall>v \<in> set (coarser_units unit). lookup comps v = lookup endComps v)
      then lookup endComps unit else None)"
proof (cases "getBiggerUnit unit")
  case None
  then show ?thesis
    by (auto simp: getDateComponentRange_def Let_def getBiggerUnit_None)
next
  case (Some upUnit)
  have eq: "downsampleDateComponents c upUnit = downsampleDateComponents comps upUnit
      \<longleftrightarrow> (\<forall>v \<in> set (coarser_units unit). lookup comps v = lookup c v)" for c
    using getBiggerUnit_Some [OF Some] by (auto simp: downsample_eq_iff)
  show ?thesis
    by (auto simp: getDateComponentRange_def Let_def Some eq)
qed

theorem getDateComponentRange_spine_witness:
  "coarser_units Month = [Year]
   \<and> lookup range_start Month = Some (Fin 8)
   \<and> lookup spine_year Year = lookup range_start Year
   \<and> lookup range_end Month = Some (Fin 3)
   \<and> lookup spine_year Year \<noteq> lookup range_end Year
   \<and> getDateComponentRange spine_year range_start range_end Month = (Some (Fin 8), None)"
  using getDateComponentRange_spine [of spine_year range_start range_end Month]
  by (simp add: spine_year_def range_start_def range_end_def lookup_def coarser_units_def
        ALL_DATE_UNITS_def)

section \<open>The watcher\<close>

lemma units_upto_self: "u \<in> set xs \<Longrightarrow> u \<in> set (units_upto xs u)"
  by (induction xs) auto

lemma units_upto_subset: "set (units_upto xs u) \<subseteq> set xs"
  by (induction xs) auto

lemma units_upto_mono:
  "distinct xs \<Longrightarrow> u \<in> set (units_upto xs r) \<Longrightarrow> set (units_upto xs u) \<subseteq> set (units_upto xs r)"
proof (induction xs)
  case Nil
  then show ?case by simp
next
  case (Cons x xs)
  then show ?case using units_upto_subset [of xs r]
    by (auto split: if_splits)
qed

lemma filter_units_upto:
  "distinct xs \<Longrightarrow> r \<in> set xs \<Longrightarrow> filter (\<lambda>u. u \<in> set (units_upto xs r)) xs = units_upto xs r"
proof (induction xs)
  case Nil
  then show ?case by simp
next
  case (Cons x xs)
  show ?case
  proof (cases "x = r")
    case True
    then show ?thesis using Cons.prems by (auto simp: filter_empty_conv)
  next
    case False
    have "filter (\<lambda>u. u = x \<or> u \<in> set (units_upto xs r)) xs
        = filter (\<lambda>u. u \<in> set (units_upto xs r)) xs"
      using Cons.prems by (intro filter_cong) auto
    then show ?thesis using False Cons by auto
  qed
qed

lemma distinct_ALL_DATE_UNITS: "distinct ALL_DATE_UNITS"
  by (simp add: ALL_DATE_UNITS_def)

lemma in_ALL_DATE_UNITS: "u \<in> set ALL_DATE_UNITS"
  by (cases u) (simp_all add: ALL_DATE_UNITS_def)

lemma object_keys_getDateComponents:
  "object_keys (getDateComponents m r) = allUnits r"
  by (simp add: object_keys_def getDateComponents_apply allUnits_def
        filter_units_upto distinct_ALL_DATE_UNITS in_ALL_DATE_UNITS)

lemma getDateComponent_Valid:
  "getDateComponent (Valid d) u = Fin (datetime_field u d + (if u = Month then 1 else 0))"
  by (simp add: getDateComponent_def graphDateValue_def)

lemma on_changes_eq:
  assumes "lookup comps unit \<noteq> Some NaN"
    and "lookup (downsampleDateComponents comps unit) unit = lookup comps unit"
  shows "on_changes comps unit changes =
     map (\<lambda>key. (downsampleDateComponents comps unit)(unit \<mapsto> Some (decodeDateComponent key)))
       (filter (\<lambda>key. key \<noteq> ''_'' \<and> Some (decodeDateComponent key) \<noteq> lookup comps unit)
          (map fst changes))"
proof (induction changes)
  case Nil
  then show ?case by simp
next
  case (Cons c changes)
  obtain key val where c: "c = (key, val)" by (cases c)
  show ?case using Cons assms
    by (auto simp: c strict_neq_def Let_def)
qed

text \<open>
  Claim C6. For a subscription of \<^verbatim>\<open>changesAbout(date, callback)\<close> at a unit, a
  notification calls the callback once for every changed key that is not the metadata
  key \<^verbatim>\<open>_\<close> and whose decoded value differs from the component of the watched date at
  the unit, in the order of the keys, and for no other key. The argument of the call is
  the components of the watched date at the units up to this unit, and at no finer
  unit, with the decoded value at the unit itself.
\<close>

theorem changesAbout_callbacks:
  assumes "(unit, node, listener) \<in> set (changesAbout tree (Valid d))"
  shows "listener changes =
     map (\<lambda>key. (downsampleDateComponents (getDateComponents (Valid d) (resolution tree)) unit)
                   (unit \<mapsto> Some (decodeDateComponent key)))
       (filter (\<lambda>key. key \<noteq> ''_''
                  \<and> decodeDateComponent key \<noteq> getDateComponent (Valid d) unit)
          (map fst changes))
     \<and> (\<forall>v. downsampleDateComponents (getDateComponents (Valid d) (resolution tree)) unit v =
            (if v \<in> set (allUnits unit) then Some (Some (getDateComponent (Valid d) v)) else None))"
proof -
  let ?comps = "getDateComponents (Valid d) (resolution tree)"
  from assms have l: "listener = on_changes ?comps unit"
    and u: "unit \<in> set (object_keys ?comps)"
    by (auto simp: changesAbout_def Let_def dest: set_zip_leftD)
  from u have u': "unit \<in> set (units_upto ALL_DATE_UNITS (resolution tree))"
    by (simp add: object_keys_getDateComponents allUnits_def)
  have sub: "set (units_upto ALL_DATE_UNITS unit) \<subseteq> set (units_upto ALL_DATE_UNITS (resolution tree))"
    using units_upto_mono [OF distinct_ALL_DATE_UNITS u'] .
  have lk: "lookup ?comps unit = Some (getDateComponent (Valid d) unit)"
    using u' by (simp add: lookup_def getDateComponents_apply)
  have self: "unit \<in> set (units_upto ALL_DATE_UNITS unit)"
    by (simp add: units_upto_self in_ALL_DATE_UNITS)
  have 1: "lookup ?comps unit \<noteq> Some NaN"
    by (simp add: lk getDateComponent_Valid)
  have 2: "lookup (downsampleDateComponents ?comps unit) unit = lookup ?comps unit"
    using self by (simp add: downsample_apply lookup_def)
  have 3: "downsampleDateComponents ?comps unit v =
            (if v \<in> set (allUnits unit) then Some (Some (getDateComponent (Valid d) v)) else None)" for v
    using sub by (auto simp: downsample_apply allUnits_def lookup_def getDateComponents_apply)
  show ?thesis
    using on_changes_eq [OF 1 2, of changes] 3 by (simp add: l lk)
qed

theorem changesAbout_callbacks_witness:
  "(Day, Get (Get (Get GunRoot ''tree-get'') ''2020'') ''08'',
      on_changes (getDateComponents example_date Day) Day)
     \<in> set (changesAbout example_tree example_date)
   \<and> on_changes (getDateComponents example_date Day) Day
        [(''24'', ()), (''_'', ()), (''23'', ())]
      = [(downsampleDateComponents (getDateComponents example_date Day) Day)
           (Day \<mapsto> Some (Fin 24))]"
proof -
  have units: "object_keys (getDateComponents example_date Day) = [Year, Month, Day]"
    by (simp add: object_keys_getDateComponents allUnits_def ALL_DATE_UNITS_def)
  have refs: "getRefChain example_tree example_date =
      [Get GunRoot ''tree-get'', Get (Get GunRoot ''tree-get'') ''2020'',
       Get (Get (Get GunRoot ''tree-get'') ''2020'') ''08'',
       Get (Get (Get (Get GunRoot ''tree-get'') ''2020'') ''08'') ''23'']"
    by code_simp
  have res: "resolution example_tree = Day" by (simp add: example_tree_def)
  have mem: "(Day, Get (Get (Get GunRoot ''tree-get'') ''2020'') ''08'',
      on_changes (getDateComponents example_date Day) Day)
     \<in> set (changesAbout example_tree example_date)"
    by (simp add: changesAbout_def Let_def units refs res)
  have dec: "decodeDateComponent ''24'' = Fin 24" "decodeDateComponent ''23'' = Fin 23"
    by code_simp+
  have day: "getDateComponent example_date Day = Fin 23"
    by (simp add: example_date_def getDateComponent_Valid)
  show ?thesis
    using changesAbout_callbacks [of Day _ _ example_tree _ "[(''24'', ()), (''_'', ()), (''23'', ())]",
        OF mem [unfolded example_date_def]] mem
    by (simp add: dec day res example_date_def [symmetric])
qed

section \<open>Dates of references\<close>





section \<open>Neighbouring dates\<close>

text \<open>
  Claim C10. \<^verbatim>\<open>previousDate(date)\<close> returns the moment object that \<^verbatim>\<open>parseDate\<close> made,
  and it holds the start of the unit of the date less one unit, for every date: the
  test \<^verbatim>\<open>floor.isSame(m)\<close> compares the object with itself.
\<close>

theorem previousDate_always_subtracts:
  "previousDate tree date h = (a, h')
     \<Longrightarrow> a = next_addr h
       \<and> cell h' a = moment_subtract (Amount 1) (Some (resolution tree))
                       (startOf (resolution tree) date)"
  by (cases "startOf (resolution tree) date")
     (auto simp: previousDate_def parseDate_def startOf_at_def subtract_at_def Let_def)

theorem previousDate_always_subtracts_witness:
  "previousDate example_tree example_date empty_heap
     = (0, empty_heap\<lparr>next_addr := 1,
             cell := (cell empty_heap)(0 := Valid \<lparr> m_year = 2020, m_month = 7, m_date = 22,
                m_hour = 0, m_minute = 0, m_second = 0, m_millisecond = 0 \<rparr>)\<rparr>)
   \<and> startOf Day example_date \<noteq> example_date
   \<and> moment_subtract (Amount 1) (Some Day) (startOf Day example_date)
      = Valid \<lparr> m_year = 2020, m_month = 7, m_date = 22,
                m_hour = 0, m_minute = 0, m_second = 0, m_millisecond = 0 \<rparr>"
proof -
  have s: "moment_subtract (Amount 1) (Some Day) (startOf Day example_date)
      = Valid \<lparr> m_year = 2020, m_month = 7, m_date = 22,
                m_hour = 0, m_minute = 0, m_second = 0, m_millisecond = 0 \<rparr>"
    by code_simp
  have p: "previousDate example_tree example_date empty_heap
     = (0, snd (previousDate example_tree example_date empty_heap))"
    by (simp add: previousDate_def parseDate_def startOf_at_def subtract_at_def Let_def
          empty_heap_def example_date_def)
  have r: "resolution example_tree = Day" by (simp add: example_tree_def)
  have ne: "startOf Day example_date \<noteq> example_date"
    by (simp add: example_date_def)
  have h: "snd (previousDate example_tree example_date empty_heap)
      = empty_heap\<lparr>next_addr := 1,
             cell := (cell empty_heap)(0 := moment_subtract (Amount 1) (Some Day) (startOf Day example_date))\<rparr>"
    by (simp add: previousDate_def parseDate_def startOf_at_def subtract_at_def Let_def
          empty_heap_def example_date_def r)
  show ?thesis
    using previousDate_always_subtracts [OF p] p h s ne
    by (simp add: r)
qed

section \<open>The first leaf after or before a date\<close>

lemma next_loop_skip:
  "\<forall>p \<in> set skipped. isSame (snd p) date
     \<Longrightarrow> next_loop (Some date) (skipped @ it) = next_loop (Some date) it"
  by (induction skipped) auto

lemma previous_loop_skip:
  "\<forall>p \<in> set skipped. isSame (snd p) date
     \<Longrightarrow> previous_loop (Some date) (skipped @ it) = previous_loop (Some date) it"
  by (induction skipped) auto

text \<open>
  Claim C5, as amended. With a date supplied, \<^verbatim>\<open>next\<close> and \<^verbatim>\<open>previous\<close> skip the
  yielded pairs whose date is the same as that date. At the first pair whose date is not
  the same, \<^verbatim>\<open>next\<close> fails with the consistency error if the date of the pair is
  before the supplied date, and \<^verbatim>\<open>previous\<close> if it is after; otherwise the pair is
  returned.
\<close>

theorem next_previous_consistency:
  assumes "\<forall>p \<in> set skipped. isSame (snd p) date" and "\<not> isSame refDate date"
  shows "next_loop (Some date) (skipped @ (ref, refDate) # rest) =
           (if isBefore refDate date then Inl UnexpectedDate else Inr (Some (ref, refDate)))
       \<and> previous_loop (Some date) (skipped @ (ref, refDate) # rest) =
           (if isAfter refDate date then Inl UnexpectedDate else Inr (Some (ref, refDate)))"
  using assms by (simp add: next_loop_skip previous_loop_skip)

theorem next_previous_consistency_witness:
  "isSame (snd (jan_1_leaf, jan_2)) jan_2 \<and> \<not> isSame jan_1 jan_2
   \<and> isBefore jan_1 jan_2
   \<and> next_loop (Some jan_2) ([(jan_1_leaf, jan_2)] @ (jan_1_leaf, jan_1) # []) = Inl UnexpectedDate
   \<and> \<not> isAfter jan_1 jan_2
   \<and> previous_loop (Some jan_2) ([(jan_1_leaf, jan_2)] @ (jan_1_leaf, jan_1) # [])
       = Inr (Some (jan_1_leaf, jan_1))"
proof -
  have 1: "\<forall>p \<in> set [(jan_1_leaf, jan_2)]. isSame (snd p) jan_2"
    by (simp add: jan_2_def)
  have 2: "\<not> isSame jan_1 jan_2"
    by (simp add: jan_1_def jan_2_def)
  have 3: "isBefore jan_1 jan_2" "\<not> isAfter jan_1 jan_2"
    by (simp_all add: jan_1_def jan_2_def isAfter_def datetime_fields_def ALL_DATE_UNITS_def)
  show ?thesis
    using next_previous_consistency [OF 1 2, of jan_1_leaf "[]"] 1 2 3 by simp
qed

text \<open>
  Claim C5 as stated lets \<^verbatim>\<open>next(date)\<close> fail whenever the first yielded date is not
  after the date. When the first yielded date is the date itself, the pair is skipped
  and nothing fails: here the iteration ends and the result is the absent pair. The
  same holds for \<^verbatim>\<open>previous\<close>.
\<close>

theorem next_skips_same_date:
  "\<not> isAfter jan_1 jan_1 \<and> next_loop (Some jan_1) [(jan_1_leaf, jan_1)] = Inr None
   \<and> \<not> isBefore jan_1 jan_1 \<and> previous_loop (Some jan_1) [(jan_1_leaf, jan_1)] = Inr None"
  by (simp add: jan_1_def isAfter_def)

section \<open>Enumerating dates\<close>

lemma moment_add_UnitName: "moment_add (UnitName u) x m = m"
  by (cases m) simp_all

lemma add_at_UnitName: "add_at (UnitName u) x a h = (a, h)"
  by (simp add: add_at_def moment_add_UnitName)

lemma iterateDates_loop_stuck:
  "isBefore (cell h date) (cell h mEnd)
     \<Longrightarrow> iterateDates_loop n res (date, mEnd, h) = replicate n (cell h date)"
  by (induction n) (simp_all add: add_at_UnitName)

lemma iterateDates_start_cells:
  "iterateDates_start start finish res h = (a, b, h')
     \<Longrightarrow> cell h' a = startOf res start \<and> cell h' b = startOf res finish"
  by (auto simp: iterateDates_start_def parseDate_def startOf_at_def Let_def)

text \<open>
  Claim C7 is not met by the code: \<^verbatim>\<open>date.add(resolution)\<close> adds nothing, so that when
  the floored start is before the floored end, every call of \<^verbatim>\<open>next()\<close> yields the
  floored start again and the generator never returns.
\<close>

theorem iterateDates_never_advances:
  assumes "isBefore (startOf res start) (startOf res finish)"
  shows "iterateDates n start finish res h = replicate n (startOf res start)"
proof -
  obtain a b h' where st: "iterateDates_start start finish res h = (a, b, h')"
    by (cases "iterateDates_start start finish res h") auto
  from iterateDates_start_cells [OF st] assms
  have "isBefore (cell h' a) (cell h' b)" and "cell h' a = startOf res start" by simp_all
  then show ?thesis
    using iterateDates_loop_stuck [of h' a b n res] by (simp add: iterateDates_def st)
qed

theorem iterateDates_never_advances_witness:
  "isBefore (startOf Day jan_1) (startOf Day jan_3)
   \<and> iterateDates 5 jan_1 jan_3 Day empty_heap = [jan_1, jan_1, jan_1, jan_1, jan_1]"
proof -
  have b: "isBefore (startOf Day jan_1) (startOf Day jan_3)"
    by (simp add: jan_1_def jan_3_def datetime_fields_def ALL_DATE_UNITS_def)
  have s: "startOf Day jan_1 = jan_1" by (simp add: jan_1_def)
  show ?thesis
    using iterateDates_never_advances [OF b, of 5 empty_heap] b
    by (simp add: s numeral_eq_Suc)
qed

section \<open>Round trip through the path of a date\<close>

lemma daysInMonth_bounds: "28 \<le> daysInMonth y mo" "daysInMonth y mo \<le> 31"
  by (simp_all add: daysInMonth_def Let_def)

lemma norm_day_valid: "1 \<le> d \<Longrightarrow> d \<le> daysInMonth y mo \<Longrightarrow> norm_day y mo d = (y, mo, d)"
  by (subst norm_day.simps) simp

lemma make_datetime_valid:
  assumes "0 \<le> mo" "mo \<le> 11" "1 \<le> d" "d \<le> daysInMonth y mo"
    "0 \<le> h" "h \<le> 23" "0 \<le> mi" "mi \<le> 59" "0 \<le> s" "s \<le> 59" "0 \<le> ms" "ms \<le> 999"
  shows "make_datetime y mo d h mi s ms =
     \<lparr> m_year = y, m_month = mo, m_date = d, m_hour = h, m_minute = mi,
       m_second = s, m_millisecond = ms \<rparr>"
proof -
  let ?t = "((h * 60 + mi) * 60 + s) * 1000 + ms"
  have t: "0 \<le> ?t" "?t < 86400000" using assms by auto
  then have d0: "?t div 86400000 = 0" and m0: "?t mod 86400000 = ?t" by simp_all
  have hh: "?t div 3600000 = h"
    by (rule int_div_pos_eq [of _ _ _ "mi * 60000 + s * 1000 + ms"]) (use assms in auto)
  have mm: "?t div 60000 mod 60 = mi"
  proof -
    have "?t div 60000 = h * 60 + mi"
      by (rule int_div_pos_eq [of _ _ _ "s * 1000 + ms"]) (use assms in auto)
    moreover have "(h * 60 + mi) mod 60 = mi"
      by (rule int_mod_pos_eq [of _ _ h]) (use assms in auto)
    ultimately show ?thesis by simp
  qed
  have ss: "?t div 1000 mod 60 = s"
  proof -
    have "?t div 1000 = (h * 60 + mi) * 60 + s"
      by (rule int_div_pos_eq [of _ _ _ "ms"]) (use assms in auto)
    moreover have "((h * 60 + mi) * 60 + s) mod 60 = s"
      by (rule int_mod_pos_eq [of _ _ "h * 60 + mi"]) (use assms in auto)
    ultimately show ?thesis by simp
  qed
  have ml: "?t mod 1000 = ms"
    by (rule int_mod_pos_eq [of _ _ "(h * 60 + mi) * 60 + s"]) (use assms in auto)
  have mo: "mo div 12 = 0" "mo mod 12 = mo" using assms by simp_all
  show ?thesis
    unfolding make_datetime_def Let_def d0 m0 mo
    by (simp only: hh mm ss ml norm_day_valid [OF assms(3,4)] add_0_right split)
qed

lemma normalise_valid: "valid_datetime d \<Longrightarrow> normalise d = d"
  unfolding normalise_def valid_datetime_def
  by (subst make_datetime_valid) auto

lemma min_one_daysInMonth: "min 1 (daysInMonth y mo) = 1"
  using daysInMonth_bounds(1) [of y mo] by simp

lemma normalise_fields:
  assumes "0 \<le> mo" "mo \<le> 11" "1 \<le> d" "d \<le> daysInMonth y mo"
    "0 \<le> h" "h \<le> 23" "0 \<le> mi" "mi \<le> 59" "0 \<le> s" "s \<le> 59" "0 \<le> ms" "ms \<le> 999"
  shows "normalise \<lparr> m_year = y, m_month = mo, m_date = d, m_hour = h, m_minute = mi,
       m_second = s, m_millisecond = ms \<rparr> =
     \<lparr> m_year = y, m_month = mo, m_date = d, m_hour = h, m_minute = mi,
       m_second = s, m_millisecond = ms \<rparr>"
  using make_datetime_valid [OF assms] by (simp add: normalise_def)


lemma getRefChain_last:
  "refs \<noteq> [] \<Longrightarrow> last refs = r
    \<Longrightarrow> last (snd (foldl (\<lambda>(ref, refs) unit. (gun_get ref (enc unit), refs @ [gun_get ref (enc unit)]))
                       (r, refs) us))
        = foldl (\<lambda>ref u. gun_get ref (enc u)) r us"
  by (induction us arbitrary: r refs) simp_all

lemma foldl_gun_get:
  "\<forall>u \<in> set us. enc u = Some (key u)
     \<Longrightarrow> foldl (\<lambda>ref u. gun_get ref (enc u)) r us = foldl Get r (map key us)"
  by (induction us arbitrary: r) simp_all

lemma size_foldl_Get: "xs \<noteq> [] \<Longrightarrow> size r < size (foldl Get r xs)"
proof (induction xs arbitrary: r)
  case Nil
  then show ?case by simp
next
  case (Cons x xs)
  show ?case
  proof (cases "xs = []")
    case True
    then show ?thesis by simp
  next
    case False
    then have "size (Get r x) < size (foldl Get (Get r x) xs)" by (rule Cons.IH)
    then show ?thesis by simp
  qed
qed

lemma size_foldl_Get_le: "size r \<le> size (foldl Get r xs)"
  using size_foldl_Get [of xs r] by (cases "xs = []") simp_all










section \<open>Range iteration on a populated store\<close>

subsection \<open>The loop of the range iteration is the recursive traversal\<close>

lemma iterate_loop_step:
  "0 \<le> it_unitIndex s \<Longrightarrow> iterate_step env s = Inr s'
     \<Longrightarrow> iterate_loop env s = iterate_loop env s'"
  by (subst iterate_loop.simps) simp

lemma foldl_upd_same_key:
  "(foldl (\<lambda>comps (innerRef, compVal). comps(u \<mapsto> Some compVal)) c items)(u := None)
     = c(u := None)"
  by (induction items arbitrary: c) auto

lemma concat_map_single:
  "concat (map (\<lambda>(a, b). [f a b]) xs) = map (\<lambda>(a, b). f a b) xs"
  by (induction xs) auto

lemma step_leaf:
  assumes "allUnits (resolution (env_tree env)) = pre @ [u]"
    and "it_unitIndex s = int (length pre)" and "it_ref s = Some node"
  shows "\<exists>s'. iterate_step env s = Inr s'
     \<and> it_unitIndex s' = int (length pre) - 1 \<and> it_ref s' = None
     \<and> it_comps s' = (it_comps s)(u := None)
     \<and> it_itStack s' = it_itStack s
     \<and> it_out s' = it_out s @ scan env [u] node (it_comps s)
     \<and> it_next_gen s' = Suc (it_next_gen s)
     \<and> (\<forall>g. g \<noteq> it_next_gen s \<longrightarrow> it_gens s' g = it_gens s g)"
  using assms
  by (simp add: iterate_step_def Let_def go_up_def foldl_upd_same_key concat_map_single)

lemma step_create:
  assumes "allUnits (resolution (env_tree env)) = pre @ u # u' # us"
    and "it_unitIndex s = int (length pre)" and "it_ref s = Some node"
  shows "\<exists>s1. iterate_step env s = iterate_step env s1
     \<and> it_unitIndex s1 = it_unitIndex s \<and> it_ref s1 = None
     \<and> it_comps s1 = it_comps s
     \<and> it_itStack s1 = it_next_gen s # it_itStack s
     \<and> it_out s1 = it_out s
     \<and> it_next_gen s1 = Suc (it_next_gen s)
     \<and> it_gens s1 = (it_gens s)(it_next_gen s := open_listing env False u node (it_comps s))"
proof -
  let ?s1 = "s\<lparr> it_gens := (it_gens s)
              (it_next_gen s := open_listing env False u node (it_comps s)),
           it_next_gen := Suc (it_next_gen s),
           it_it := Some (it_next_gen s),
           it_itStack := it_next_gen s # it_itStack s,
           it_ref := None \<rparr>"
  have "iterate_step env s = iterate_step env ?s1"
    using assms by (simp add: iterate_step_def Let_def nth_append)
  then show ?thesis by (intro exI [of _ ?s1]) simp
qed

lemma step_exhausted:
  assumes "allUnits (resolution (env_tree env)) = pre @ u # u' # us"
    and "it_unitIndex s = int (length pre)" and "it_ref s = None"
    and "it_itStack s = g # S" and "it_gens s g = []"
  shows "\<exists>s'. iterate_step env s = Inr s'
     \<and> it_unitIndex s' = int (length pre) - 1 \<and> it_ref s' = None
     \<and> it_comps s' = (it_comps s)(u := None)
     \<and> it_itStack s' = S
     \<and> it_out s' = it_out s
     \<and> it_next_gen s' = it_next_gen s
     \<and> it_gens s' = it_gens s"
  using assms by (simp add: iterate_step_def Let_def nth_append go_up_def)

lemma step_descend:
  assumes "allUnits (resolution (env_tree env)) = pre @ u # u' # us"
    and "it_unitIndex s = int (length pre)" and "it_ref s = None"
    and "it_itStack s = g # S" and "it_gens s g = (innerRef, compVal) # rest"
  shows "\<exists>s'. iterate_step env s = Inr s'
     \<and> it_unitIndex s' = int (length pre) + 1 \<and> it_ref s' = Some innerRef
     \<and> it_comps s' = (it_comps s)(u \<mapsto> Some compVal)
     \<and> it_itStack s' = g # S
     \<and> it_out s' = it_out s
     \<and> it_next_gen s' = it_next_gen s
     \<and> it_gens s' = (it_gens s)(g := rest)"
  using assms by (simp add: iterate_step_def Let_def nth_append)

lemma iterate_loop_same_step:
  assumes "0 \<le> it_unitIndex s" and "it_unitIndex s1 = it_unitIndex s"
    and "iterate_step env s = iterate_step env s1"
  shows "iterate_loop env s = iterate_loop env s1"
proof -
  have "iterate_loop env s =
      (case iterate_step env s of Inl e \<Rightarrow> Some (Inl e) | Inr s' \<Rightarrow> iterate_loop env s')"
    using assms(1) by (subst iterate_loop.simps) simp
  moreover have "iterate_loop env s1 =
      (case iterate_step env s1 of Inl e \<Rightarrow> Some (Inl e) | Inr s' \<Rightarrow> iterate_loop env s')"
    using assms(1,2) by (subst iterate_loop.simps) simp
  ultimately show ?thesis using assms(3) by simp
qed

lemma scan_run:
  assumes "allUnits (resolution (env_tree env)) = pre @ u # us"
    and "distinct (pre @ u # us)"
    and "it_unitIndex s = int (length pre)" and "it_ref s = Some node"
    and "\<forall>x \<in> set us. it_comps s x = None"
  shows "\<exists>s'. iterate_loop env s = iterate_loop env s'
     \<and> it_unitIndex s' = int (length pre) - 1 \<and> it_ref s' = None
     \<and> it_comps s' = (it_comps s)(u := None)
     \<and> it_itStack s' = it_itStack s
     \<and> it_out s' = it_out s @ scan env (u # us) node (it_comps s)
     \<and> it_next_gen s \<le> it_next_gen s'
     \<and> (\<forall>g < it_next_gen s. it_gens s' g = it_gens s g)"
  using assms
proof (induction us arbitrary: pre u s node)
  case Nil
  from step_leaf [OF Nil.prems(1) Nil.prems(3) Nil.prems(4)]
  obtain s' where s': "iterate_step env s = Inr s'"
    "it_unitIndex s' = int (length pre) - 1" "it_ref s' = None"
    "it_comps s' = (it_comps s)(u := None)" "it_itStack s' = it_itStack s"
    "it_out s' = it_out s @ scan env [u] node (it_comps s)"
    "it_next_gen s' = Suc (it_next_gen s)"
    "\<forall>g. g \<noteq> it_next_gen s \<longrightarrow> it_gens s' g = it_gens s g"
    by blast
  have "iterate_loop env s = iterate_loop env s'"
    using Nil.prems(3) s'(1) by (intro iterate_loop_step) simp_all
  with s' show ?case by (intro exI [of _ s']) (simp del: scan.simps)
next
  case (Cons u' us')
  note units = Cons.prems(1) and dist = Cons.prems(2)
  note deeper = Cons.IH
  have units': "allUnits (resolution (env_tree env)) = (pre @ [u]) @ u' # us'"
    using units by simp
  have dist': "distinct ((pre @ [u]) @ u' # us')" using dist by simp
  have u_notin: "u \<notin> set (u' # us')" using dist by auto
  have u'_notin: "u' \<notin> set us'" using dist by auto
  have sib: "\<exists>s'. iterate_loop env t = iterate_loop env s'
       \<and> it_unitIndex s' = int (length pre) - 1 \<and> it_ref s' = None
       \<and> it_comps s' = (it_comps t)(u := None)
       \<and> it_itStack s' = S
       \<and> it_out s' = it_out t @
             concat (map (\<lambda>(innerRef, compVal).
                       scan env (u' # us') innerRef ((it_comps t)(u \<mapsto> Some compVal))) rem)
       \<and> it_next_gen t \<le> it_next_gen s'
       \<and> (\<forall>g' < it_next_gen t. g' \<noteq> g \<longrightarrow> it_gens s' g' = it_gens t g')"
    if "it_unitIndex t = int (length pre)" "it_ref t = None" "it_itStack t = g # S"
      "g < it_next_gen t" "it_gens t g = rem" "\<forall>x \<in> set (u' # us'). it_comps t x = None"
    for t g S rem
    using that
  proof (induction rem arbitrary: t)
    case Nil
    from step_exhausted [OF units Nil.prems(1) Nil.prems(2) Nil.prems(3) Nil.prems(5)]
    obtain s' where s': "iterate_step env t = Inr s'"
      "it_unitIndex s' = int (length pre) - 1" "it_ref s' = None"
      "it_comps s' = (it_comps t)(u := None)" "it_itStack s' = S"
      "it_out s' = it_out t" "it_next_gen s' = it_next_gen t" "it_gens s' = it_gens t"
      by blast
    have "iterate_loop env t = iterate_loop env s'"
      using Nil.prems(1) s'(1) by (intro iterate_loop_step) simp_all
    with s' show ?case by (intro exI [of _ s']) simp
  next
    case (Cons item rest)
    obtain innerRef compVal where item: "item = (innerRef, compVal)" by (cases item)
    from step_descend [OF units Cons.prems(1) Cons.prems(2) Cons.prems(3)
        Cons.prems(5) [unfolded item]]
    obtain t2 where t2: "iterate_step env t = Inr t2"
      "it_unitIndex t2 = int (length pre) + 1" "it_ref t2 = Some innerRef"
      "it_comps t2 = (it_comps t)(u \<mapsto> Some compVal)" "it_itStack t2 = g # S"
      "it_out t2 = it_out t" "it_next_gen t2 = it_next_gen t"
      "it_gens t2 = (it_gens t)(g := rest)"
      by blast
    have l1: "iterate_loop env t = iterate_loop env t2"
      using Cons.prems(1) t2(1) by (intro iterate_loop_step) simp_all
    have idx2: "it_unitIndex t2 = int (length (pre @ [u]))" using t2(2) by simp
    have none2: "\<forall>x \<in> set us'. it_comps t2 x = None"
      using Cons.prems(6) u_notin by (auto simp: t2(4))
    from deeper [OF units' dist' idx2 t2(3) none2]
    obtain t3 where t3: "iterate_loop env t2 = iterate_loop env t3"
      "it_unitIndex t3 = int (length (pre @ [u])) - 1" "it_ref t3 = None"
      "it_comps t3 = (it_comps t2)(u' := None)" "it_itStack t3 = it_itStack t2"
      "it_out t3 = it_out t2 @ scan env (u' # us') innerRef (it_comps t2)"
      "it_next_gen t2 \<le> it_next_gen t3"
      "\<forall>g < it_next_gen t2. it_gens t3 g = it_gens t2 g"
      by blast
    have c3: "it_comps t3 = (it_comps t)(u \<mapsto> Some compVal)"
      using Cons.prems(6) u_notin by (auto simp: t3(4) t2(4) fun_eq_iff)
    have idx3: "it_unitIndex t3 = int (length pre)" using t3(2) by simp
    have st3: "it_itStack t3 = g # S" using t3(5) t2(5) by simp
    have g3: "g < it_next_gen t3" using Cons.prems(4) t2(7) t3(7) by simp
    have gens3: "it_gens t3 g = rest"
      using t3(8) Cons.prems(4) t2(7,8) by simp
    have none3: "\<forall>x \<in> set (u' # us'). it_comps t3 x = None"
      using Cons.prems(6) u_notin by (auto simp: c3)
    from Cons.IH [OF idx3 t3(3) st3 g3 gens3 none3]
    obtain s' where s': "iterate_loop env t3 = iterate_loop env s'"
      "it_unitIndex s' = int (length pre) - 1" "it_ref s' = None"
      "it_comps s' = (it_comps t3)(u := None)" "it_itStack s' = S"
      "it_out s' = it_out t3 @
             concat (map (\<lambda>(innerRef, compVal).
                       scan env (u' # us') innerRef ((it_comps t3)(u \<mapsto> Some compVal))) rest)"
      "it_next_gen t3 \<le> it_next_gen s'"
      "\<forall>g' < it_next_gen t3. g' \<noteq> g \<longrightarrow> it_gens s' g' = it_gens t3 g'"
      by blast
    have loop: "iterate_loop env t = iterate_loop env s'"
      using l1 t3(1) s'(1) by simp
    have comps: "it_comps s' = (it_comps t)(u := None)"
      by (simp add: s'(4) c3)
    have upd: "(it_comps t3)(u \<mapsto> Some v) = (it_comps t)(u \<mapsto> Some v)" for v
      by (simp add: c3)
    have out: "it_out s' = it_out t @
             concat (map (\<lambda>(innerRef, compVal).
                       scan env (u' # us') innerRef ((it_comps t)(u \<mapsto> Some compVal)))
                     (item # rest))"
      by (simp add: s'(6) upd t3(6) t2(6) t2(4) item del: scan.simps)
    have ng: "it_next_gen t \<le> it_next_gen s'"
      using t2(7) t3(7) s'(7) by simp
    have frame: "\<forall>g' < it_next_gen t. g' \<noteq> g \<longrightarrow> it_gens s' g' = it_gens t g'"
    proof (intro allI impI)
      fix g' assume a: "g' < it_next_gen t" "g' \<noteq> g"
      then have "g' < it_next_gen t3" "g' < it_next_gen t2" using t2(7) t3(7) by simp_all
      then have "it_gens s' g' = it_gens t2 g'" using s'(8) t3(8) a(2) by simp
      then show "it_gens s' g' = it_gens t g'" using a(2) by (simp add: t2(8))
    qed
    show ?case
      by (intro exI [of _ s'] conjI loop s'(2) s'(3) comps s'(5) out ng frame)
  qed
  from step_create [OF units Cons.prems(3) Cons.prems(4)]
  obtain s1 where s1: "iterate_step env s = iterate_step env s1"
    "it_unitIndex s1 = it_unitIndex s" "it_ref s1 = None"
    "it_comps s1 = it_comps s" "it_itStack s1 = it_next_gen s # it_itStack s"
    "it_out s1 = it_out s" "it_next_gen s1 = Suc (it_next_gen s)"
    "it_gens s1 = (it_gens s)(it_next_gen s := open_listing env False u node (it_comps s))"
    by blast
  have l0: "iterate_loop env s = iterate_loop env s1"
    using Cons.prems(3) s1(1,2) by (intro iterate_loop_same_step) simp_all
  have idx1: "it_unitIndex s1 = int (length pre)" using s1(2) Cons.prems(3) by simp
  have g1: "it_next_gen s < it_next_gen s1" using s1(7) by simp
  have gens1: "it_gens s1 (it_next_gen s) = open_listing env False u node (it_comps s)"
    by (simp add: s1(8))
  have none1: "\<forall>x \<in> set (u' # us'). it_comps s1 x = None"
    using Cons.prems(5) by (simp add: s1(4))
  from sib [OF idx1 s1(3) s1(5) g1 gens1 none1]
  obtain s' where s': "iterate_loop env s1 = iterate_loop env s'"
    "it_unitIndex s' = int (length pre) - 1" "it_ref s' = None"
    "it_comps s' = (it_comps s1)(u := None)" "it_itStack s' = it_itStack s"
    "it_out s' = it_out s1 @
       concat (map (\<lambda>(innerRef, compVal).
                 scan env (u' # us') innerRef ((it_comps s1)(u \<mapsto> Some compVal)))
               (open_listing env False u node (it_comps s)))"
    "it_next_gen s1 \<le> it_next_gen s'"
    "\<forall>g' < it_next_gen s1. g' \<noteq> it_next_gen s \<longrightarrow> it_gens s' g' = it_gens s1 g'"
    by blast
  have out: "it_out s' = it_out s @ scan env (u # u' # us') node (it_comps s)"
    by (simp add: s'(6) s1(4,6))
  have frame: "\<forall>g < it_next_gen s. it_gens s' g = it_gens s g"
    using s'(8) s1(7,8) by simp
  have "it_next_gen s \<le> it_next_gen s'" using s'(7) s1(7) by simp
  with l0 s'(1,2,3) s'(4) s1(4) s'(5) out frame show ?case
    by (intro exI [of _ s']) (simp del: scan.simps)
qed

text \<open>From its initial state the loop ends and yields what the recursion yields.\<close>

lemma allUnits_nonempty: "allUnits res \<noteq> []"
  by (simp add: allUnits_def ALL_DATE_UNITS_def)

lemma distinct_allUnits: "distinct (allUnits res)"
  by (cases res) (simp_all add: allUnits_def ALL_DATE_UNITS_def)

lemma iterate_eq_scan:
  "iterate tree st opts =
     Some (Inr (scan \<lparr> env_store = st, env_tree = tree, env_opts = opts \<rparr>
                  (allUnits (resolution tree)) (root tree) Map.empty))"
proof -
  let ?env = "\<lparr> env_store = st, env_tree = tree, env_opts = opts \<rparr>"
  let ?s0 = "\<lparr> it_ref = Some (root tree), it_comps = Map.empty, it_unitIndex = 0,
         it_it = None, it_itStack = [], it_gens = (\<lambda>g. []), it_next_gen = 0,
         it_out = [] \<rparr>"
  obtain u us where units: "allUnits (resolution tree) = u # us"
    using allUnits_nonempty [of "resolution tree"] by (cases "allUnits (resolution tree)") auto
  have 1: "allUnits (resolution (env_tree ?env)) = [] @ u # us" using units by simp
  have 2: "distinct ([] @ u # us)" using distinct_allUnits [of "resolution tree"] units by simp
  from scan_run [OF 1 2, of ?s0 "root tree"]
  obtain s' where s': "iterate_loop ?env ?s0 = iterate_loop ?env s'"
    "it_unitIndex s' = - 1" "it_out s' = scan ?env (u # us) (root tree) Map.empty"
    by auto
  have "iterate_loop ?env s' = Some (Inr (it_out s'))"
    using s'(2) by (subst iterate_loop.simps) simp
  then show ?thesis by (simp add: iterate_def s'(1,3) units)
qed

subsection \<open>Sorted lists\<close>

lemma strict_sorted_unique:
  fixes xs :: "'a :: linorder list"
  assumes "sorted_wrt (<) xs" and "set xs = A"
  shows "sorted_list_of_set A = xs"
proof -
  have "sorted xs" "distinct xs" using assms(1) strict_sorted_iff [of xs] by simp_all
  then have "sorted_list_of_set (set xs) = xs" by (rule sorted_list_of_set.idem_if_sorted_distinct)
  then show ?thesis using assms(2) by simp
qed

lemma sorted_list_of_set_image:
  fixes A :: "'a :: linorder set" and f :: "'a \<Rightarrow> 'b :: linorder"
  assumes "finite A" and "\<And>x y. x \<in> A \<Longrightarrow> y \<in> A \<Longrightarrow> x < y \<Longrightarrow> f x < f y"
  shows "sorted_list_of_set (f ` A) = map f (sorted_list_of_set A)"
proof -
  have s: "sorted_wrt (<) (sorted_list_of_set A)"
    using strict_sorted_iff [of "sorted_list_of_set A"] by simp
  have "sorted_wrt (\<lambda>x y. f x < f y) (sorted_list_of_set A)"
  proof (rule sorted_wrt_mono_rel [OF _ s])
    fix x y assume "x \<in> set (sorted_list_of_set A)" "y \<in> set (sorted_list_of_set A)" "x < y"
    then show "f x < f y" using assms by simp
  qed
  then have "sorted_wrt (<) (map f (sorted_list_of_set A))"
    by (simp add: sorted_wrt_map)
  moreover have "set (map f (sorted_list_of_set A)) = f ` A" using assms(1) by simp
  ultimately show ?thesis by (rule strict_sorted_unique)
qed

lemma sorted_wrt_concat_map:
  assumes "\<And>v. v \<in> set vs \<Longrightarrow> sorted_wrt R (f v)"
    and "sorted_wrt (\<lambda>v w. \<forall>a \<in> set (f v). \<forall>b \<in> set (f w). R a b) vs"
  shows "sorted_wrt R (concat (map f vs))"
  using assms
proof (induction vs)
  case Nil
  then show ?case by simp
next
  case (Cons v vs)
  have 1: "sorted_wrt R (f v)" using Cons.prems(1) by simp
  have 2: "sorted_wrt R (concat (map f vs))" using Cons by simp
  have 3: "\<forall>a \<in> set (f v). \<forall>b \<in> set (concat (map f vs)). R a b"
    using Cons.prems(2) by auto
  show ?case using 1 2 3 by (simp add: sorted_wrt_append)
qed

lemma in_direction_map: "in_direction rv (map f xs) = map f (in_direction rv xs)"
  by (simp add: in_direction_def rev_map)

lemma set_in_direction: "set (in_direction rv xs) = set xs"
  by (simp add: in_direction_def)

lemma sorted_in_direction:
  fixes xs :: "int list"
  assumes "sorted_wrt (<) xs"
  shows "sorted_wrt (\<lambda>v w. if rv then w < v else v < w) (in_direction rv xs)"
  using assms by (simp add: in_direction_def sorted_wrt_rev)

subsection \<open>The bounds along a path and the lexicographic order\<close>

lemma in_bounds_lex:
  assumes "length s = length t" and "length e = length t" and "t \<noteq> []"
  shows "in_bounds onS onE s e t \<longleftrightarrow> (onS \<longrightarrow> s \<le> t) \<and> (onE \<longrightarrow> t < e)"
  using assms
proof (induction t arbitrary: s e onS onE)
  case Nil
  then show ?case by simp
next
  case (Cons x ts)
  obtain a ss where s: "s = a # ss" "length ss = length ts"
    using Cons.prems(1) by (cases s) auto
  obtain b es where e: "e = b # es" "length es = length ts"
    using Cons.prems(2) by (cases e) auto
  show ?case
  proof (cases "ts = []")
    case True
    then show ?thesis using s e by (auto simp: level_ok_def)
  next
    case False
    have "in_bounds (onS \<and> a = x) (onE \<and> b = x) ss es ts
        \<longleftrightarrow> (onS \<and> a = x \<longrightarrow> ss \<le> ts) \<and> (onE \<and> b = x \<longrightarrow> ts < es)"
      using s(2) e(2) False by (intro Cons.IH) simp_all
    then show ?thesis using False by (auto simp: s(1) e(1) level_ok_def)
  qed
qed

subsection \<open>The populated store\<close>

lemma child_key_small: "size x \<le> size node \<Longrightarrow> child_key node x = None"
proof (induction x)
  case GunRoot
  then show ?case by simp
next
  case (Get p key)
  have "p \<noteq> node" using Get.prems by auto
  then show ?case using Get by simp
next
  case (ErrorChain p)
  then show ?case by simp
qed

lemma foldl_Get_inj: "foldl Get r ks = foldl Get r ks' \<Longrightarrow> ks = ks'"
proof (induction ks arbitrary: ks' rule: rev_induct)
  case Nil
  show ?case
  proof (rule ccontr)
    assume "[] \<noteq> ks'"
    then have "size r < size (foldl Get r ks')" by (intro size_foldl_Get) simp
    then show False using Nil by simp
  qed
next
  case (snoc k ks)
  show ?case
  proof (cases ks' rule: rev_cases)
    case Nil
    have lt: "size r < size (foldl Get r (ks @ [k]))" by (intro size_foldl_Get) simp
    have "foldl Get r (ks @ [k]) = r" using snoc.prems Nil by simp
    from lt [unfolded this] show ?thesis by simp
  next
    case (snoc ks'' k')
    then have "foldl Get r ks = foldl Get r ks''" "k = k'" using snoc.prems by simp_all
    then show ?thesis using snoc.IH [of ks''] snoc by simp
  qed
qed

lemma child_key_foldl_Get:
  "child_key (foldl Get r ks) (foldl Get r ks') =
     (if length ks < length ks' \<and> take (length ks) ks' = ks then Some (ks' ! length ks)
      else None)"
proof (induction ks' rule: rev_induct)
  case Nil
  show ?case using size_foldl_Get_le [of r ks] by (simp add: child_key_small)
next
  case (snoc k ks'')
  show ?case
  proof (cases "ks'' = ks")
    case True
    then show ?thesis by simp
  next
    case False
    then have ne: "foldl Get r ks'' \<noteq> foldl Get r ks" using foldl_Get_inj by blast
    show ?thesis
    proof (cases "length ks < length ks''")
      case True
      then show ?thesis using ne snoc by (simp add: nth_append)
    next
      case False
      then have "take (length ks) (ks'' @ [k]) \<noteq> ks \<or> \<not> length ks < length (ks'' @ [k])"
        using \<open>ks'' \<noteq> ks\<close> by (cases "length ks = length ks''") auto
      then show ?thesis using ne snoc False by auto
    qed
  qed
qed

lemma set_populate:
  "set (populate tree ds) = (\<lambda>d. get tree (Valid d)) ` set ds"
proof -
  have "set (foldl (\<lambda>st d. snd (put tree (Valid d) st)) st0 ds)
      = set st0 \<union> (\<lambda>d. get tree (Valid d)) ` set ds" for st0
    by (induction ds arbitrary: st0) (auto simp: put_def Let_def)
  then show ?thesis by (simp add: populate_def)
qed

lemma set_map_filter: "set (List.map_filter f xs) = {y. \<exists>x \<in> set xs. f x = Some y}"
  by (induction xs) (auto simp: List.map_filter_simps split: option.splits)

subsection \<open>Keys of codec dates\<close>

lemma component_valid: "codec_date d \<Longrightarrow> codec_value u (component d u)"
  using daysInMonth_bounds(2) [of "m_year d" "m_month d"]
  by (cases u)
     (auto simp: codec_date_def valid_datetime_def component_def codec_value_def
        DATE_COMP_PADS_simps)

lemma component_ge_0: "codec_date d \<Longrightarrow> 0 \<le> component d u"
  using component_valid [of d u] by (simp add: codec_value_def)

lemma unit_key_mono:
  assumes "codec_value u a" "codec_value u b" "a < b"
  shows "unit_key u a < unit_key u b"
  unfolding unit_key_def using assms
  by (intro fixed_less DATE_COMP_PADS_pos) (auto simp: codec_value_def)

lemma unit_key_less:
  assumes "codec_value u a" "codec_value u b"
  shows "unit_key u a < unit_key u b \<longleftrightarrow> a < b"
proof (cases a b rule: linorder_cases)
  case less
  then show ?thesis using unit_key_mono [OF assms less] by simp
next
  case equal
  then show ?thesis by simp
next
  case greater
  then show ?thesis using unit_key_mono [OF assms(2,1) greater] by simp
qed

lemma unit_key_eq:
  assumes "codec_value u a" "codec_value u b"
  shows "unit_key u a = unit_key u b \<longleftrightarrow> a = b"
  using unit_key_less [OF assms] unit_key_less [OF assms(2,1)]
  by (cases a b rule: linorder_cases) auto

lemma unit_key_le:
  assumes "codec_value u a" "codec_value u b"
  shows "unit_key u a \<le> unit_key u b \<longleftrightarrow> a \<le> b"
  using unit_key_less [OF assms(2,1)] by (simp add: not_less [symmetric])

lemma decode_unit_key: "0 \<le> v \<Longrightarrow> decodeDateComponent (unit_key u v) = Fin v"
  by (simp add: unit_key_def fixed_def decode_padded)

lemma encode_component:
  "codec_date d \<Longrightarrow> encodeDateComponent (Some (Fin (component d u))) u
     = Some (unit_key u (component d u))"
  using component_ge_0 [of d u] by (simp add: encode_valid unit_key_def)

lemma getDateComponents_comps_at:
  "getDateComponents (Valid d) res = comps_at (allUnits res) d"
  by (simp add: getDateComponents_apply getDateComponent_Valid comps_at_def allUnits_def
        component_def fun_eq_iff del: datetime_field.simps)

lemma get_node_at:
  assumes "codec_date d"
  shows "get tree (Valid d) = node_at tree (allUnits (resolution tree)) d"
proof -
  let ?res = "resolution tree"
  let ?units = "allUnits ?res"
  let ?comps = "getDateComponents (Valid d) ?res"
  have enc: "\<forall>u \<in> set ?units. encodeDateComponent (lookup ?comps u) u
               = Some (unit_key u (component d u))"
    using encode_component [OF assms]
    by (simp add: getDateComponents_comps_at comps_at_def lookup_def)
  have "get tree (Valid d)
      = foldl (\<lambda>ref u. gun_get ref (encodeDateComponent (lookup ?comps u) u)) (root tree) ?units"
    unfolding get_def getRefChain_def Let_def object_keys_getDateComponents
    by (rule getRefChain_last
          [where enc = "\<lambda>u. encodeDateComponent (lookup ?comps u) u"]) simp_all
  also have "\<dots> = foldl Get (root tree) (map (\<lambda>u. unit_key u (component d u)) ?units)"
    using enc by (rule foldl_gun_get)
  finally show ?thesis by (simp add: node_at_def)
qed

lemma components_eq_iff:
  "components us d = components us d' \<longleftrightarrow> (\<forall>u \<in> set us. component d u = component d' u)"
  by (simp add: components_def)

lemma keys_eq_iff:
  assumes "codec_date d" "codec_date d'"
  shows "map (\<lambda>u. unit_key u (component d u)) us = map (\<lambda>u. unit_key u (component d' u)) us
     \<longleftrightarrow> components us d = components us d'"
  using unit_key_eq [OF component_valid [OF assms(1)] component_valid [OF assms(2)]]
  by (simp add: components_def)

text \<open>The keys of a node on the path of a date: the keys of the dates that share the path.\<close>

lemma node_keys_populate:
  assumes "\<forall>d \<in> set D. codec_date d" and "codec_date d0"
    and "allUnits (resolution tree) = pre @ u # us"
  shows "node_keys (populate tree D) (node_at tree pre d0)
     = sorted_list_of_set
         (unit_key u ` {component d u | d. d \<in> set D \<and> components pre d = components pre d0})"
proof -
  let ?units = "allUnits (resolution tree)"
  let ?key = "\<lambda>d u. unit_key u (component d u)"
  have ck: "child_key (node_at tree pre d0) (get tree (Valid d))
      = (if components pre d = components pre d0 then Some (?key d u) else None)"
    if "d \<in> set D" for d
  proof -
    have cd: "codec_date d" using assms(1) that by simp
    have "take (length pre) (map (?key d) ?units) = map (?key d) pre"
      by (simp add: assms(3))
    moreover have "map (?key d) ?units ! length pre = ?key d u"
      by (simp add: assms(3) nth_append)
    moreover have "length pre < length ?units" by (simp add: assms(3))
    ultimately show ?thesis
      unfolding get_node_at [OF cd] node_at_def child_key_foldl_Get
      using keys_eq_iff [OF cd assms(2), of pre] by simp
  qed
  have "set (List.map_filter (child_key (node_at tree pre d0)) (populate tree D))
      = unit_key u ` {component d u | d. d \<in> set D \<and> components pre d = components pre d0}"
    unfolding set_map_filter set_populate using ck by (auto split: if_splits)
  then show ?thesis by (simp add: node_keys_def)
qed

subsection \<open>The bounds of a level\<close>

lemma units_upto_take:
  "units_upto xs r = pre @ u # us \<Longrightarrow> u \<notin> set pre \<Longrightarrow> take (indexOf xs u) xs = pre"
proof (induction xs arbitrary: pre)
  case Nil
  then show ?case by simp
next
  case (Cons x xs)
  show ?case
  proof (cases pre)
    case Nil
    then show ?thesis using Cons.prems by (simp split: if_splits)
  next
    case (Cons p pre')
    then have "x = p" "p \<noteq> u" "units_upto xs r = pre' @ u # us" "u \<notin> set pre'"
      using Cons.prems by (auto split: if_splits)
    then show ?thesis using Cons.IH [of pre'] Cons by simp
  qed
qed

lemma coarser_units_pre:
  assumes "allUnits res = pre @ u # us"
  shows "coarser_units u = pre"
proof -
  have "u \<notin> set pre" using distinct_allUnits [of res] assms by simp
  then show ?thesis
    using assms units_upto_take [of ALL_DATE_UNITS res pre u us]
    by (simp add: coarser_units_def allUnits_def)
qed

lemma lookup_comps_at:
  "lookup (comps_at us d) v = (if v \<in> set us then Some (Fin (component d v)) else None)"
  by (simp add: lookup_def comps_at_def)

lemma range_on_path:
  assumes "allUnits res = pre @ u # us"
  shows "getDateComponentRange (comps_at pre d0) (comps_at (allUnits res) S)
           (comps_at (allUnits res) E) u
     = (if components pre d0 = components pre S then Some (Fin (component S u)) else None,
        if components pre d0 = components pre E then Some (Fin (component E u)) else None)"
proof -
  have u: "u \<in> set (allUnits res)" using assms by simp
  have sub: "set pre \<subseteq> set (allUnits res)" using assms by auto
  have lu: "lookup (comps_at (allUnits res) x) u = Some (Fin (component x u))" for x
    using u by (simp add: lookup_comps_at)
  have agree: "(\<forall>v \<in> set pre. lookup (comps_at (allUnits res) x) v = lookup (comps_at pre d0) v)
      \<longleftrightarrow> components pre d0 = components pre x" for x
    using sub by (auto simp: lookup_comps_at components_eq_iff)
  show ?thesis
  proof (cases "getBiggerUnit u")
    case None
    then have "pre = []" using getBiggerUnit_None [OF None] coarser_units_pre [OF assms] by simp
    then show ?thesis
      by (simp add: getDateComponentRange_def Let_def lu None components_def)
  next
    case (Some upUnit)
    have up: "units_upto ALL_DATE_UNITS upUnit = pre"
      using getBiggerUnit_Some [OF Some] coarser_units_pre [OF assms] by simp
    have eq: "downsampleDateComponents (comps_at (allUnits res) x) upUnit
          = downsampleDateComponents (comps_at pre d0) upUnit
        \<longleftrightarrow> components pre d0 = components pre x" for x
      unfolding downsample_eq_iff up by (rule agree)
    show ?thesis
      by (simp add: getDateComponentRange_def Let_def lu Some eq)
  qed
qed

subsection \<open>The listing of a node\<close>

lemma finite_level_values: "finite (level_values D pre u d0)"
proof -
  have "level_values D pre u d0
      = (\<lambda>d. component d u) ` {d \<in> set D. components pre d = components pre d0}"
    by (auto simp: level_values_def)
  then show ?thesis by simp
qed

lemma level_values_valid:
  "\<forall>d \<in> set D. codec_date d \<Longrightarrow> v \<in> level_values D pre u d0 \<Longrightarrow> codec_value u v"
  by (auto simp: level_values_def component_valid)

lemma open_listing_populate:
  assumes D: "\<forall>d \<in> set D. codec_date d"
    and d0: "codec_date d0" and S: "codec_date S" and E: "codec_date E"
    and units: "allUnits (resolution tree) = pre @ u # us"
    and env: "env = \<lparr> env_store = populate tree D, env_tree = tree,
                      env_opts = range_opts S E rv \<rparr>"
  shows "open_listing env (us = []) u (node_at tree pre d0) (comps_at pre d0)
     = map (\<lambda>v. (Get (node_at tree pre d0) (unit_key u v), Fin v))
         (in_direction rv
            (filter (level_ok (components pre d0 = components pre S)
                       (components pre d0 = components pre E) (us = [])
                       (component S u) (component E u))
               (sorted_list_of_set (level_values D pre u d0))))"
proof -
  let ?V = "level_values D pre u d0"
  let ?node = "node_at tree pre d0"
  let ?onS = "components pre d0 = components pre S"
  let ?onE = "components pre d0 = components pre E"
  let ?opts = "\<lparr> key_start = if ?onS then Some (unit_key u (component S u)) else None,
      key_end = if ?onE then Some (unit_key u (component E u)) else None,
      key_startInclusive = True, key_endInclusive = (us \<noteq> []), key_reverse = rv \<rparr>"
  have sc: "startComps_of env = comps_at (allUnits (resolution tree)) S"
    and ec: "endComps_of env = comps_at (allUnits (resolution tree)) E"
    by (simp_all add: startComps_of_def endComps_of_def env range_opts_def
          getDateComponents_comps_at)
  have encS: "encodeDateComponent (if ?onS then Some (Fin (component S u)) else None) u
      = (if ?onS then Some (unit_key u (component S u)) else None)"
    using encode_component [OF S, of u] by (simp add: encodeDateComponent_def)
  have encE: "encodeDateComponent (if ?onE then Some (Fin (component E u)) else None) u
      = (if ?onE then Some (unit_key u (component E u)) else None)"
    using encode_component [OF E, of u] by (simp add: encodeDateComponent_def)
  have ol: "open_listing env (us = []) u ?node (comps_at pre d0)
      = iterateRef (populate tree D) ?node ?opts"
    unfolding open_listing_def sc ec range_on_path [OF units]
    by (simp only: Let_def prod.case encS encE)
       (simp add: env range_opts_def)
  have mono: "unit_key u x < unit_key u y" if "x \<in> ?V" "y \<in> ?V" "x < y" for x y
    using unit_key_less [OF level_values_valid [OF D that(1)] level_values_valid [OF D that(2)]]
      that(3) by simp
  have nk: "node_keys (populate tree D) ?node = map (unit_key u) (sorted_list_of_set ?V)"
    unfolding node_keys_populate [OF D d0 units] level_values_def [symmetric]
    by (rule sorted_list_of_set_image [OF finite_level_values mono])
  have ok: "in_key_range ?opts (unit_key u v)
      \<longleftrightarrow> level_ok ?onS ?onE (us = []) (component S u) (component E u) v"
    if "v \<in> ?V" for v
  proof -
    have v: "codec_value u v" using level_values_valid [OF D that] .
    show ?thesis
      using unit_key_le [OF component_valid [OF S] v]
        unit_key_le [OF v component_valid [OF E]]
        unit_key_less [OF v component_valid [OF E]]
      by (simp add: in_key_range_def level_ok_def)
  qed
  have flt: "filter (in_key_range ?opts) (map (unit_key u) (sorted_list_of_set ?V))
      = map (unit_key u)
          (filter (level_ok ?onS ?onE (us = []) (component S u) (component E u))
             (sorted_list_of_set ?V))"
    unfolding filter_map comp_def
    using ok finite_level_values [of D pre u d0]
    by (intro arg_cong [where f = "map (unit_key u)"] filter_cong) simp_all
  have dec: "decodeDateComponent (unit_key u v) = Fin v" if "v \<in> ?V" for v
    using level_values_valid [OF D that] by (simp add: decode_unit_key codec_value_def)
  let ?vs = "filter (level_ok ?onS ?onE (us = []) (component S u) (component E u))
             (sorted_list_of_set ?V)"
  have sub: "set (in_direction rv ?vs) \<subseteq> ?V"
    using finite_level_values [of D pre u d0] by (auto simp: set_in_direction)
  have "iterateRef (populate tree D) ?node ?opts
      = map (\<lambda>v. (Get ?node (unit_key u v), decodeDateComponent (unit_key u v)))
          (in_direction rv ?vs)"
    by (simp add: iterateRef_def iterateRefs_def Let_def nk flt in_direction_def rev_map comp_def)
  also have "\<dots> = map (\<lambda>v. (Get ?node (unit_key u v), Fin v)) (in_direction rv ?vs)"
    using sub dec by (intro map_cong) auto
  finally show ?thesis using ol by simp
qed

subsection \<open>Paths of dates\<close>

lemma node_at_snoc:
  "node_at tree (pre @ [u]) d = Get (node_at tree pre d) (unit_key u (component d u))"
  by (simp add: node_at_def)

lemma comps_at_snoc:
  "comps_at (pre @ [u]) d = (comps_at pre d)(u \<mapsto> Some (Fin (component d u)))"
  by (auto simp: comps_at_def fun_eq_iff)

lemma node_at_cong:
  "components us d = components us d' \<Longrightarrow> node_at tree us d = node_at tree us d'"
  by (simp add: node_at_def components_eq_iff cong: map_cong)

lemma comps_at_cong:
  "components us d = components us d' \<Longrightarrow> comps_at us d = comps_at us d'"
  by (auto simp: comps_at_def components_eq_iff fun_eq_iff)

lemma components_snoc:
  "components (pre @ [u]) d = components (pre @ [u]) d'
     \<longleftrightarrow> components pre d = components pre d' \<and> component d u = component d' u"
  by (simp add: components_def)

lemma getDateWithComponents_comps_at:
  assumes "valid_datetime d"
  shows "getDateWithComponents (comps_at (allUnits res) d) (Some res)
           = Valid (startOf_datetime res d)"
proof -
  obtain y mo dd h mi s ms where d: "d = \<lparr> m_year = y, m_month = mo, m_date = dd, m_hour = h,
      m_minute = mi, m_second = s, m_millisecond = ms \<rparr>"
    by (cases d) auto
  have v: "0 \<le> mo" "mo \<le> 11" "1 \<le> dd" "dd \<le> daysInMonth y mo" "0 \<le> h" "h \<le> 23"
    "0 \<le> mi" "mi \<le> 59" "0 \<le> s" "s \<le> 59" "0 \<le> ms" "ms \<le> 999"
    using assms by (simp_all add: valid_datetime_def d)
  have dim: "1 \<le> daysInMonth y' mo'" for y' mo'
    using daysInMonth_bounds(1) [of y' mo'] by simp
  show ?thesis
    by (cases res)
       (simp_all add: getDateWithComponents_def ALL_DATE_UNITS_def allUnits_def comps_at_def
          component_def nativeDateValue_def ZERO_DATE_def d
          setMonth_def min_one_daysInMonth normalise_fields v dim)
qed

lemma leaf_eq:
  assumes "codec_date d"
  shows "(node_at tree (allUnits (resolution tree)) d,
          getDateWithComponents (comps_at (allUnits (resolution tree)) d) (Some (resolution tree)))
     = leaf_pair tree d"
  using assms get_node_at [OF assms, of tree]
  by (simp add: leaf_pair_def getDateWithComponents_comps_at codec_date_def)

lemma leaf_cong:
  assumes "codec_date d" "codec_date d'"
    and "components (allUnits (resolution tree)) d = components (allUnits (resolution tree)) d'"
  shows "leaf_pair tree d = leaf_pair tree d'"
  unfolding leaf_eq [OF assms(1), symmetric] leaf_eq [OF assms(2), symmetric]
  using node_at_cong [OF assms(3)] comps_at_cong [OF assms(3)] by simp

subsection \<open>The order of dates and the order of paths\<close>

lemma isBefore_startOf:
  "isBefore (Valid (startOf_datetime res d)) (Valid (startOf_datetime res d'))
     \<longleftrightarrow> components (allUnits res) d < components (allUnits res) d'"
  by (cases res)
     (auto simp: datetime_fields_def ALL_DATE_UNITS_def allUnits_def components_def
        component_def)

lemma components_less_at:
  assumes "components pre d = components pre d'" and "component d u < component d' u"
  shows "components (pre @ u # us) d < components (pre @ u # us) d'"
proof -
  have eq: "components (pre @ u # us) x = components pre x @ component x u # components us x"
    for x by (simp add: components_def)
  have "(components pre d' @ component d u # components us d,
         components pre d' @ component d' u # components us d') \<in> lexord {(a, b). a < b}"
    using assms(2) by (intro lexord_append_left_rightI) simp
  then show ?thesis unfolding eq list_less_def assms(1) .
qed

lemma in_order_leaf:
  assumes "allUnits (resolution tree) = pre @ u # us"
    and "components pre d = components pre d'"
    and "if rv then component d' u < component d u else component d u < component d' u"
  shows "in_order rv (leaf_pair tree d) (leaf_pair tree d')"
proof (cases rv)
  case True
  then have "components (pre @ u # us) d' < components (pre @ u # us) d"
    using assms(2,3) by (intro components_less_at) simp_all
  then show ?thesis using True by (simp add: in_order_def leaf_pair_def isBefore_startOf assms(1) del: isBefore.simps)
next
  case False
  then have "components (pre @ u # us) d < components (pre @ u # us) d'"
    using assms(2,3) by (intro components_less_at) simp_all
  then show ?thesis using False by (simp add: in_order_def leaf_pair_def isBefore_startOf assms(1) del: isBefore.simps)
qed

lemma path_set_Cons:
  "d \<in> path_set D S E pre (u # us) d0 \<longleftrightarrow>
     d \<in> set D \<and> components pre d = components pre d0
     \<and> level_ok (components pre d0 = components pre S) (components pre d0 = components pre E)
         (us = []) (component S u) (component E u) (component d u)
     \<and> in_bounds (components pre d0 = components pre S \<and> component S u = component d u)
         (components pre d0 = components pre E \<and> component E u = component d u)
         (components us S) (components us E) (components us d)"
  by (auto simp: path_set_def level_ok_def components_def)

lemma path_set_snoc:
  assumes "components pre dv = components pre d0"
  shows "d \<in> path_set D S E (pre @ [u]) us dv \<longleftrightarrow>
     d \<in> set D \<and> components pre d = components pre d0 \<and> component d u = component dv u
     \<and> in_bounds (components pre d0 = components pre S \<and> component S u = component dv u)
         (components pre d0 = components pre E \<and> component E u = component dv u)
         (components us S) (components us E) (components us d)"
proof -
  have 1: "components (pre @ [u]) dv = components (pre @ [u]) x
      \<longleftrightarrow> components pre d0 = components pre x \<and> component x u = component dv u" for x
    using assms by (auto simp: components_snoc)
  have 2: "components (pre @ [u]) d = components (pre @ [u]) dv
      \<longleftrightarrow> components pre d = components pre d0 \<and> component d u = component dv u"
    using assms by (auto simp: components_snoc)
  show ?thesis unfolding path_set_def mem_Collect_eq 1 2 by simp
qed

text \<open>What the traversal yields below a node on the path of a date.\<close>

lemma scan_populate:
  assumes D: "\<forall>d \<in> set D. codec_date d" and S: "codec_date S" and E: "codec_date E"
    and env: "env = \<lparr> env_store = populate tree D, env_tree = tree,
                      env_opts = range_opts S E rv \<rparr>"
    and units: "allUnits (resolution tree) = pre @ us"
    and d0: "codec_date d0" and atleaf: "us = [] \<longrightarrow> d0 \<in> set D"
  shows "set (scan env us (node_at tree pre d0) (comps_at pre d0))
           = leaf_pair tree ` path_set D S E pre us d0
     \<and> sorted_wrt (in_order rv) (scan env us (node_at tree pre d0) (comps_at pre d0))"
  using units d0 atleaf
proof (induction us arbitrary: pre d0)
  case Nil
  have pre: "pre = allUnits (resolution tree)" using Nil.prems(1) by simp
  have d0D: "d0 \<in> set D" using Nil.prems(3) by simp
  have sc: "scan env [] (node_at tree pre d0) (comps_at pre d0) = [leaf_pair tree d0]"
    using leaf_eq [OF Nil.prems(2), of tree] by (simp add: pre env)
  have same: "leaf_pair tree d = leaf_pair tree d0"
    if "d \<in> set D" "components pre d = components pre d0" for d
    using leaf_cong [of d d0 tree] D that Nil.prems(2) pre by simp
  have "leaf_pair tree ` path_set D S E pre [] d0 = {leaf_pair tree d0}"
  proof (intro equalityI subsetI)
    fix x assume "x \<in> leaf_pair tree ` path_set D S E pre [] d0"
    then show "x \<in> {leaf_pair tree d0}" using same by (auto simp: path_set_def)
  next
    fix x assume "x \<in> {leaf_pair tree d0}"
    then show "x \<in> leaf_pair tree ` path_set D S E pre [] d0"
      using d0D by (auto simp: path_set_def components_def)
  qed
  then show ?case unfolding sc by simp
next
  case (Cons u us')
  let ?node = "node_at tree pre d0"
  let ?comps = "comps_at pre d0"
  let ?onS = "components pre d0 = components pre S"
  let ?onE = "components pre d0 = components pre E"
  let ?V = "level_values D pre u d0"
  let ?ok = "level_ok ?onS ?onE (us' = []) (component S u) (component E u)"
  let ?vs = "in_direction rv (filter ?ok (sorted_list_of_set ?V))"
  let ?g = "\<lambda>v. scan env us' (Get ?node (unit_key u v)) (?comps(u \<mapsto> Some (Fin v)))"
  let ?A = "\<lambda>v. {d \<in> set D. components pre d = components pre d0 \<and> component d u = v
      \<and> in_bounds (?onS \<and> component S u = v) (?onE \<and> component E u = v)
          (components us' S) (components us' E) (components us' d)}"
  have sc: "scan env (u # us') ?node ?comps = concat (map ?g ?vs)"
    by (simp add: open_listing_populate [OF D Cons.prems(2) S E Cons.prems(1) env] comp_def)
  have units': "allUnits (resolution tree) = (pre @ [u]) @ us'" using Cons.prems(1) by simp
  have vs: "set ?vs = {v \<in> ?V. ?ok v}"
    by (simp add: set_in_direction finite_level_values)
  have child: "set (?g v) = leaf_pair tree ` ?A v \<and> sorted_wrt (in_order rv) (?g v)"
    if "v \<in> set ?vs" for v
  proof -
    from that obtain dv where dv: "dv \<in> set D" "components pre dv = components pre d0"
      "component dv u = v"
      unfolding vs by (auto simp: level_values_def)
    have cd: "codec_date dv" using D dv(1) by simp
    have n: "Get ?node (unit_key u v) = node_at tree (pre @ [u]) dv"
      by (simp add: node_at_snoc dv(3) node_at_cong [OF dv(2)])
    have c: "?comps(u \<mapsto> Some (Fin v)) = comps_at (pre @ [u]) dv"
      by (simp add: comps_at_snoc dv(3) comps_at_cong [OF dv(2)])
    have "us' = [] \<longrightarrow> dv \<in> set D" using dv(1) by simp
    from Cons.IH [OF units' cd this]
    have ih: "set (scan env us' (node_at tree (pre @ [u]) dv) (comps_at (pre @ [u]) dv))
          = leaf_pair tree ` path_set D S E (pre @ [u]) us' dv"
      "sorted_wrt (in_order rv) (scan env us' (node_at tree (pre @ [u]) dv)
          (comps_at (pre @ [u]) dv))"
      by simp_all
    have ps: "path_set D S E (pre @ [u]) us' dv = ?A v"
      using path_set_snoc [OF dv(2), of _ D S E u us'] by (auto simp: dv(3))
    show ?thesis unfolding n c using ih ps by simp
  qed
  have "set (concat (map ?g ?vs)) = (\<Union>v \<in> set ?vs. leaf_pair tree ` ?A v)"
    using child by simp
  also have "\<dots> = leaf_pair tree ` (\<Union>v \<in> set ?vs. ?A v)" by (simp only: image_UN)
  also have "(\<Union>v \<in> set ?vs. ?A v) = path_set D S E pre (u # us') d0"
  proof (intro equalityI subsetI)
    fix d assume "d \<in> (\<Union>v \<in> set ?vs. ?A v)"
    then show "d \<in> path_set D S E pre (u # us') d0"
      unfolding vs path_set_Cons by auto
  next
    fix d assume "d \<in> path_set D S E pre (u # us') d0"
    then have d: "d \<in> set D" "components pre d = components pre d0" "?ok (component d u)"
      "in_bounds (?onS \<and> component S u = component d u) (?onE \<and> component E u = component d u)
         (components us' S) (components us' E) (components us' d)"
      unfolding path_set_Cons by simp_all
    have "component d u \<in> ?V" using d(1,2) by (auto simp: level_values_def)
    then have "component d u \<in> set ?vs" using d(3) unfolding vs by simp
    moreover have "d \<in> ?A (component d u)" using d by simp
    ultimately show "d \<in> (\<Union>v \<in> set ?vs. ?A v)" by blast
  qed
  finally have set_part: "set (concat (map ?g ?vs)) = leaf_pair tree ` path_set D S E pre (u # us') d0" .
  have "sorted_wrt (<) (sorted_list_of_set ?V)"
    using strict_sorted_iff [of "sorted_list_of_set ?V"] by simp
  then have "sorted_wrt (<) (filter ?ok (sorted_list_of_set ?V))" by (rule sorted_wrt_filter)
  then have sorted_vs: "sorted_wrt (\<lambda>v w. if rv then w < v else v < w) ?vs"
    by (rule sorted_in_direction)
  have cross: "\<forall>a \<in> set (?g v). \<forall>b \<in> set (?g w). in_order rv a b"
    if vw: "v \<in> set ?vs" "w \<in> set ?vs" "if rv then w < v else v < w" for v w
  proof (intro ballI)
    fix a b assume "a \<in> set (?g v)" "b \<in> set (?g w)"
    then obtain d d' where dd: "a = leaf_pair tree d" "components pre d = components pre d0"
      "component d u = v" "b = leaf_pair tree d'" "components pre d' = components pre d0"
      "component d' u = w"
      using child [OF vw(1)] child [OF vw(2)] by auto
    have "in_order rv (leaf_pair tree d) (leaf_pair tree d')"
      using vw(3) dd(2,3,5,6) by (intro in_order_leaf [OF Cons.prems(1)]) simp_all
    then show "in_order rv a b" by (simp add: dd(1,4))
  qed
  have "sorted_wrt (in_order rv) (concat (map ?g ?vs))"
  proof (rule sorted_wrt_concat_map)
    show "sorted_wrt (in_order rv) (?g v)" if "v \<in> set ?vs" for v using child [OF that] by simp
    show "sorted_wrt (\<lambda>v w. \<forall>a \<in> set (?g v). \<forall>b \<in> set (?g w). in_order rv a b) ?vs"
      using cross by (intro sorted_wrt_mono_rel [OF _ sorted_vs]) blast
  qed
  with set_part show ?case unfolding sc by simp
qed

text \<open>
  What \<^verbatim>\<open>iterate\<close> yields on a populated store, in terms of the paths of the bounds.
\<close>

lemma iterate_populate:
  assumes "\<forall>d \<in> set D. codec_date d" and "codec_date S" and "codec_date E"
  shows "\<exists>out.
     iterate tree (populate tree D) (range_opts S E rv) = Some (Inr out)
     \<and> set out = leaf_pair tree `
         {d \<in> set D. components (allUnits (resolution tree)) S
                       \<le> components (allUnits (resolution tree)) d
                   \<and> components (allUnits (resolution tree)) d
                       < components (allUnits (resolution tree)) E}
     \<and> sorted_wrt (in_order rv) out"
proof -
  let ?res = "resolution tree"
  let ?units = "allUnits ?res"
  let ?env = "\<lparr> env_store = populate tree D, env_tree = tree, env_opts = range_opts S E rv \<rparr>"
  let ?out = "scan ?env ?units (root tree) Map.empty"
  have it: "iterate tree (populate tree D) (range_opts S E rv) = Some (Inr ?out)"
    by (rule iterate_eq_scan)
  have n: "node_at tree [] S = root tree" "comps_at [] S = Map.empty"
    by (simp_all add: node_at_def comps_at_def)
  have units: "?units = [] @ ?units" by simp
  have "?units = [] \<longrightarrow> S \<in> set D" using allUnits_nonempty [of ?res] by simp
  from scan_populate [OF assms(1,2,3) refl units assms(2) this]
  have sc: "set ?out = leaf_pair tree ` path_set D S E [] ?units S"
    "sorted_wrt (in_order rv) ?out"
    unfolding n by simp_all
  have e: "components [] x = []" for x by (simp add: components_def)
  have b: "in_bounds True True (components ?units S) (components ?units E) (components ?units d)
      \<longleftrightarrow> components ?units S \<le> components ?units d
        \<and> components ?units d < components ?units E" for d
    using allUnits_nonempty [of ?res] by (subst in_bounds_lex) (simp_all add: components_def)
  have ps: "path_set D S E [] ?units S =
      {d \<in> set D. components ?units S \<le> components ?units d
                 \<and> components ?units d < components ?units E}"
    unfolding path_set_def by (simp add: e b)
  show ?thesis
    by (intro exI [of _ ?out] conjI it sc(1) [unfolded ps] sc(2))
qed

text \<open>
  Claim C1, as amended. On a store populated at the dates of \<open>D\<close>,
  \<^verbatim>\<open>iterate({start: S, end: E})\<close> ends and yields exactly the pairs of the leaf of a date
  of \<open>D\<close> and that date cut to the resolution of the tree, for the dates that, cut to the
  resolution, are not before \<open>S\<close> cut to the resolution and are before \<open>E\<close> cut to the
  resolution. The pairs come strictly ascending by date, so none twice, and strictly
  descending with \<^verbatim>\<open>reverse\<close>. The dates are valid dates of the years 0 to 9999, whose
  keys have the widths of the codec.
\<close>

theorem iterate_range:
  assumes "\<forall>d \<in> set D. codec_date d" and "codec_date S" and "codec_date E"
  shows "\<exists>out.
     iterate tree (populate tree D)
       \<lparr> date_start = Some (Valid S), date_end = Some (Valid E), startInclusive = True,
         endInclusive = False, reverse = rv \<rparr> = Some (Inr out)
     \<and> set out = (\<lambda>d. (get tree (Valid d), startOf (resolution tree) (Valid d))) `
         {d \<in> set D.
            \<not> isBefore (startOf (resolution tree) (Valid d)) (startOf (resolution tree) (Valid S))
            \<and> isBefore (startOf (resolution tree) (Valid d)) (startOf (resolution tree) (Valid E))}
     \<and> sorted_wrt (\<lambda>a b. if rv then isBefore (snd b) (snd a) else isBefore (snd a) (snd b)) out"
proof -
  let ?res = "resolution tree"
  let ?units = "allUnits ?res"
  from iterate_populate [OF assms, of tree rv]
  obtain out where out:
    "iterate tree (populate tree D) (range_opts S E rv) = Some (Inr out)"
    "set out = leaf_pair tree `
       {d \<in> set D. components ?units S \<le> components ?units d
                  \<and> components ?units d < components ?units E}"
    "sorted_wrt (in_order rv) out"
    by blast
  have o: "isBefore (startOf ?res (Valid x)) (startOf ?res (Valid y))
      \<longleftrightarrow> components ?units x < components ?units y" for x y
    unfolding startOf.simps by (rule isBefore_startOf)
  have ps: "{d \<in> set D. components ?units S \<le> components ?units d
                 \<and> components ?units d < components ?units E} =
      {d \<in> set D. \<not> isBefore (startOf ?res (Valid d)) (startOf ?res (Valid S))
                 \<and> isBefore (startOf ?res (Valid d)) (startOf ?res (Valid E))}"
    unfolding o by (simp add: not_less)
  have lp: "leaf_pair tree = (\<lambda>d. (get tree (Valid d), startOf ?res (Valid d)))"
    by (rule ext) (simp only: leaf_pair_def)
  have io: "in_order rv = (\<lambda>a b. if rv then isBefore (snd b) (snd a) else isBefore (snd a) (snd b))"
    by (intro ext) (simp only: in_order_def)
  show ?thesis
    by (intro exI [of _ out] conjI out(1) [unfolded range_opts_def] out(2) [unfolded ps lp]
          out(3) [unfolded io])
qed

theorem iterate_range_witness:
  "codec_date aug_1 \<and> codec_date aug_10 \<and> codec_date aug_23 \<and> codec_date sep_1
   \<and> (\<exists>out.
        iterate example_tree (populate example_tree [aug_1, aug_23, sep_1])
          \<lparr> date_start = Some (Valid aug_10), date_end = Some (Valid sep_1),
            startInclusive = True, endInclusive = False, reverse = False \<rparr> = Some (Inr out)
        \<and> set out = (\<lambda>d. (get example_tree (Valid d), startOf (resolution example_tree) (Valid d))) `
            {d \<in> set [aug_1, aug_23, sep_1].
               \<not> isBefore (startOf (resolution example_tree) (Valid d))
                    (startOf (resolution example_tree) (Valid aug_10))
               \<and> isBefore (startOf (resolution example_tree) (Valid d))
                    (startOf (resolution example_tree) (Valid sep_1))}
        \<and> sorted_wrt (\<lambda>a b. if False then isBefore (snd b) (snd a)
                              else isBefore (snd a) (snd b)) out)
   \<and> {d \<in> set [aug_1, aug_23, sep_1].
         \<not> isBefore (startOf (resolution example_tree) (Valid d))
              (startOf (resolution example_tree) (Valid aug_10))
         \<and> isBefore (startOf (resolution example_tree) (Valid d))
              (startOf (resolution example_tree) (Valid sep_1))} = {aug_23}
   \<and> get example_tree (Valid aug_23) = aug_23_leaf
   \<and> startOf (resolution example_tree) (Valid aug_23) = Valid aug_23"
proof -
  have c1: "codec_date aug_1" and c2: "codec_date aug_10" and c3: "codec_date aug_23"
    and c4: "codec_date sep_1"
    by (simp_all add: codec_date_def valid_datetime_def daysInMonth_def isLeapYear_def
          aug_1_def aug_10_def aug_23_def sep_1_def)
  have h: "\<forall>d \<in> set [aug_1, aug_23, sep_1]. codec_date d" using c1 c3 c4 by simp
  note r = iterate_range [OF h c2 c4, of example_tree False]
  have s: "{d \<in> set [aug_1, aug_23, sep_1].
         \<not> isBefore (startOf (resolution example_tree) (Valid d))
              (startOf (resolution example_tree) (Valid aug_10))
         \<and> isBefore (startOf (resolution example_tree) (Valid d))
              (startOf (resolution example_tree) (Valid sep_1))} = {aug_23}"
    by (auto simp: example_tree_def aug_1_def aug_10_def aug_23_def sep_1_def
          datetime_fields_def ALL_DATE_UNITS_def)
  have g: "get example_tree (Valid aug_23) = aug_23_leaf" by code_simp
  have f: "startOf (resolution example_tree) (Valid aug_23) = Valid aug_23"
    by (simp add: example_tree_def aug_23_def)
  show ?thesis by (intro conjI c1 c2 c3 c4 r s g f)
qed

text \<open>
  Against the claim as it was stated: a leaf at 23 August 2020 in a tree of days, and
  a range from 10 August to a moment in the course of 23 August. The date of the leaf
  lies in the range, and the iteration yields nothing. With that moment as the start
  of a range, the leaf is yielded although its date is before the start.
\<close>

theorem iterate_end_within_day:
  "populate example_tree [aug_23] = [aug_23_leaf]
   \<and> \<not> isBefore (Valid aug_23) (Valid aug_10)
   \<and> isBefore (Valid aug_23) example_date
   \<and> iterate example_tree (populate example_tree [aug_23])
       \<lparr> date_start = Some (Valid aug_10), date_end = Some example_date,
         startInclusive = True, endInclusive = False, reverse = False \<rparr>
     = Some (Inr [])
   \<and> isBefore example_date (Valid sep_1)
   \<and> (\<exists>out. iterate example_tree (populate example_tree [aug_23])
         \<lparr> date_start = Some example_date, date_end = Some (Valid sep_1),
           startInclusive = True, endInclusive = False, reverse = False \<rparr>
         = Some (Inr out)
       \<and> set out = {(aug_23_leaf, Valid aug_23)})"
proof -
  let ?E = "\<lparr> m_year = 2020, m_month = 7, m_date = 23,
              m_hour = 12, m_minute = 34, m_second = 56, m_millisecond = 789 \<rparr>"
  have ed: "example_date = Valid ?E" by (simp add: example_date_def)
  have c2: "codec_date aug_10" and c3: "codec_date aug_23" and c4: "codec_date sep_1"
    and c5: "codec_date ?E"
    by (simp_all add: codec_date_def valid_datetime_def daysInMonth_def isLeapYear_def
          aug_10_def aug_23_def sep_1_def)
  have h: "\<forall>d \<in> set [aug_23]. codec_date d" using c3 by simp
  have units: "allUnits (resolution example_tree) = [Year, Month, Day]"
    by (simp add: example_tree_def allUnits_def ALL_DATE_UNITS_def)
  have cs: "components [Year, Month, Day] aug_23 = [2020, 8, 23]"
    "components [Year, Month, Day] aug_10 = [2020, 8, 10]"
    "components [Year, Month, Day] sep_1 = [2020, 9, 1]"
    "components [Year, Month, Day] ?E = [2020, 8, 23]"
    by (simp_all add: components_def component_def aug_23_def aug_10_def sep_1_def)
  have p: "populate example_tree [aug_23] = [aug_23_leaf]" by code_simp
  have g: "leaf_pair example_tree aug_23 = (aug_23_leaf, Valid aug_23)"
    using p by (simp add: leaf_pair_def populate_def put_def Let_def example_tree_def aug_23_def)
  have b1: "\<not> isBefore (Valid aug_23) (Valid aug_10)"
    by (simp add: aug_23_def aug_10_def datetime_fields_def ALL_DATE_UNITS_def)
  have b2: "isBefore (Valid aug_23) example_date"
    by (simp add: aug_23_def example_date_def datetime_fields_def ALL_DATE_UNITS_def)
  have b3: "isBefore example_date (Valid sep_1)"
    by (simp add: sep_1_def example_date_def datetime_fields_def ALL_DATE_UNITS_def)
  have s1: "{d \<in> set [aug_23]. components [Year, Month, Day] aug_10
                 \<le> components [Year, Month, Day] d
               \<and> components [Year, Month, Day] d < components [Year, Month, Day] ?E} = {}"
    by (auto simp: cs)
  have s2: "{d \<in> set [aug_23]. components [Year, Month, Day] ?E
                 \<le> components [Year, Month, Day] d
               \<and> components [Year, Month, Day] d < components [Year, Month, Day] sep_1}
        = {aug_23}"
    by (auto simp: cs)
  from iterate_populate [OF h c2 c5, of example_tree False, unfolded units s1]
  obtain out where out:
    "iterate example_tree (populate example_tree [aug_23]) (range_opts aug_10 ?E False)
       = Some (Inr out)"
    "set out = {}"
    by auto
  have i1: "iterate example_tree (populate example_tree [aug_23])
       \<lparr> date_start = Some (Valid aug_10), date_end = Some example_date,
         startInclusive = True, endInclusive = False, reverse = False \<rparr>
     = Some (Inr [])"
    using out by (simp add: range_opts_def ed)
  from iterate_populate [OF h c5 c4, of example_tree False, unfolded units s2]
  obtain out' where out':
    "iterate example_tree (populate example_tree [aug_23]) (range_opts ?E sep_1 False)
       = Some (Inr out')"
    "set out' = {leaf_pair example_tree aug_23}"
    by auto
  have i2: "\<exists>out. iterate example_tree (populate example_tree [aug_23])
         \<lparr> date_start = Some example_date, date_end = Some (Valid sep_1),
           startInclusive = True, endInclusive = False, reverse = False \<rparr>
         = Some (Inr out)
       \<and> set out = {(aug_23_leaf, Valid aug_23)}"
    using out' by (intro exI [of _ out']) (simp add: range_opts_def ed g)
  show ?thesis by (intro conjI p b1 b2 i1 b3 i2)
qed

end
